theory Spec2Isabelle
  imports Main "HOL-Library.Sublist"
begin

section \<open>JavaScript values, strings and characters\<close>

text \<open>
  The functions of \<^verbatim>\<open>SvgNamespaceNormalizer\<close> take any JavaScript value. A string is
  modelled as the list of its code units, here the code units below 256 (\<^typ>\<open>char\<close>);
  every other value (undefined, null, a number, an object) is \<open>JOther\<close>.
\<close>

datatype 'a jsval = JString string | JOther 'a

definition lowers :: string where
  "lowers = ''abcdefghijklmnopqrstuvwxyz''"

definition uppers :: string where
  "uppers = ''ABCDEFGHIJKLMNOPQRSTUVWXYZ''"

definition digits :: string where
  "digits = ''0123456789''"

definition letters :: string where
  "letters = lowers @ uppers"

text \<open>The class \<^verbatim>\<open>\s\<close> on code units below 256: TAB, LF, VT, FF, CR, SP and NBSP.\<close>

definition ws :: string where
  "ws = [CHR 0x09, CHR 0x0A, CHR 0x0B, CHR 0x0C, CHR 0x0D, CHR 0x20, CHR 0xA0]"

definition quotes :: string where
  "quotes = [CHR 0x22, CHR 0x27]"

text \<open>
  Canonicalize of the regular expression semantics without the \<^verbatim>\<open>u\<close> flag: the upper case
  of a code unit. Every character of the patterns below is ASCII, and a code unit from 128
  on never canonicalizes to an ASCII one, so only the ASCII letters are mapped.
\<close>

definition canonicalize :: "char \<Rightarrow> char" where
  "canonicalize c = (case map_of (zip lowers uppers) c of Some u \<Rightarrow> u | None \<Rightarrow> c)"

definition same :: "bool \<Rightarrow> char \<Rightarrow> char \<Rightarrow> bool" where
  "same ci a c = (if ci then canonicalize a = canonicalize c else a = c)"

section \<open>Regular expressions, as the backtracking matcher runs them\<close>

text \<open>
  A character class lists its members (\<open>In\<close>) or the members of its complement
  (\<open>NotIn\<close>); \<^verbatim>\<open>[\s\S]\<close> is \<open>NotIn []\<close>. Every quantifier of the source's patterns
  stands on a single character class: \<open>Many\<close> is the greedy \<^verbatim>\<open>*\<close>, \<open>Few\<close> the lazy
  \<^verbatim>\<open>*?\<close>, \<open>Maybe\<close> the greedy \<^verbatim>\<open>?\<close>, and \<^verbatim>\<open>c+\<close> is \<^verbatim>\<open>cc*\<close>.
\<close>

datatype cset = In string | NotIn string

fun accepts :: "bool \<Rightarrow> cset \<Rightarrow> char \<Rightarrow> bool" where
  "accepts ci (In cs) c = list_ex (\<lambda>a. same ci a c) cs"
| "accepts ci (NotIn cs) c = (\<not> list_ex (\<lambda>a. same ci a c) cs)"

datatype re =
    Chars string
  | One cset
  | Many cset
  | Few cset
  | Maybe cset
  | Seq re re
  | Alt re re
  | Group re

definition plus :: "cset \<Rightarrow> re" where
  "plus c = Seq (One c) (Many c)"

fun cat :: "re list \<Rightarrow> re" where
  "cat [] = Chars []"
| "cat [r] = r"
| "cat (r # rs) = Seq r (cat rs)"

type_synonym mres = "(string \<times> string list) option"

fun lit :: "bool \<Rightarrow> string \<Rightarrow> string \<Rightarrow> string option" where
  "lit ci [] s = Some s"
| "lit ci (p # ps) [] = None"
| "lit ci (p # ps) (c # s) = (if same ci p c then lit ci ps s else None)"

fun many :: "bool \<Rightarrow> cset \<Rightarrow> string \<Rightarrow> (string \<Rightarrow> mres) \<Rightarrow> mres" where
  "many ci cs [] k = k []"
| "many ci cs (c # s) k =
     (if accepts ci cs c
      then (case many ci cs s k of Some m \<Rightarrow> Some m | None \<Rightarrow> k (c # s))
      else k (c # s))"

fun few :: "bool \<Rightarrow> cset \<Rightarrow> string \<Rightarrow> (string \<Rightarrow> mres) \<Rightarrow> mres" where
  "few ci cs [] k = k []"
| "few ci cs (c # s) k =
     (case k (c # s) of
        Some m \<Rightarrow> Some m
      | None \<Rightarrow> if accepts ci cs c then few ci cs s k else None)"

text \<open>
  \<open>bt ci r s caps k\<close> matches \<open>r\<close> at the start of \<open>s\<close> and hands the rest of the text
  and the captures to the continuation \<open>k\<close>; a continuation that fails makes the matcher
  try its next choice, in the order of the ECMAScript semantics. \<open>ci\<close> is the \<^verbatim>\<open>i\<close> flag.
\<close>

fun bt :: "bool \<Rightarrow> re \<Rightarrow> string \<Rightarrow> string list \<Rightarrow> (string \<Rightarrow> string list \<Rightarrow> mres) \<Rightarrow> mres" where
  "bt ci (Chars p) s caps k = (case lit ci p s of None \<Rightarrow> None | Some s' \<Rightarrow> k s' caps)"
| "bt ci (One c) [] caps k = None"
| "bt ci (One c) (x # s) caps k = (if accepts ci c x then k s caps else None)"
| "bt ci (Many c) s caps k = many ci c s (\<lambda>s'. k s' caps)"
| "bt ci (Few c) s caps k = few ci c s (\<lambda>s'. k s' caps)"
| "bt ci (Maybe c) [] caps k = k [] caps"
| "bt ci (Maybe c) (x # s) caps k =
     (if accepts ci c x
      then (case k s caps of Some m \<Rightarrow> Some m | None \<Rightarrow> k (x # s) caps)
      else k (x # s) caps)"
| "bt ci (Seq a b) s caps k = bt ci a s caps (\<lambda>s' caps'. bt ci b s' caps' k)"
| "bt ci (Alt a b) s caps k =
     (case bt ci a s caps k of Some m \<Rightarrow> Some m | None \<Rightarrow> bt ci b s caps k)"
| "bt ci (Group a) s caps k =
     bt ci a s caps (\<lambda>s' caps'. k s' (caps' @ [take (length s - length s') s]))"

text \<open>A match starting at the first character: the text after it, and the captures.\<close>

definition exec_at :: "bool \<Rightarrow> re \<Rightarrow> string \<Rightarrow> mres" where
  "exec_at ci r s = bt ci r s [] (\<lambda>s' caps. Some (s', caps))"

text \<open>
  The leftmost match, as \<^verbatim>\<open>RegExp.prototype.exec\<close> finds it from index 0: the text before
  the match, the text after it, and the captures.
\<close>

fun find_first :: "bool \<Rightarrow> re \<Rightarrow> string \<Rightarrow> (string \<times> string \<times> string list) option" where
  "find_first ci r [] =
     (case exec_at ci r [] of Some (rest, caps) \<Rightarrow> Some ([], rest, caps) | None \<Rightarrow> None)"
| "find_first ci r (c # s) =
     (case exec_at ci r (c # s) of
        Some (rest, caps) \<Rightarrow> Some ([], rest, caps)
      | None \<Rightarrow>
         (case find_first ci r s of
            Some (pre, rest, caps) \<Rightarrow> Some (c # pre, rest, caps)
          | None \<Rightarrow> None))"

text \<open>\<^verbatim>\<open>regex.test(s)\<close> of a regular expression without the \<^verbatim>\<open>g\<close> flag.\<close>

definition test :: "bool \<Rightarrow> re \<Rightarrow> string \<Rightarrow> bool" where
  "test ci r s = (find_first ci r s \<noteq> None)"

text \<open>
  \<^verbatim>\<open>s.replace(regex, f)\<close> with the \<^verbatim>\<open>g\<close> flag. The callback gets the matched text and
  the captures; the state \<open>st\<close> is what its closure mutates. After an empty match the
  search moves one character on.
\<close>

function replace_all_fn ::
  "bool \<Rightarrow> re \<Rightarrow> (string \<Rightarrow> string list \<Rightarrow> 'st \<Rightarrow> string \<times> 'st) \<Rightarrow> string \<Rightarrow> 'st \<Rightarrow> string \<times> 'st" where
  "replace_all_fn ci r f [] st =
     (case exec_at ci r [] of Some (rest, caps) \<Rightarrow> f [] caps st | None \<Rightarrow> ([], st))"
| "replace_all_fn ci r f (c # s) st =
     (case exec_at ci r (c # s) of
        None \<Rightarrow> (case replace_all_fn ci r f s st of (t, st') \<Rightarrow> (c # t, st'))
      | Some (rest, caps) \<Rightarrow>
          (case f (take (length (c # s) - length rest) (c # s)) caps st of
             (out, st1) \<Rightarrow>
               if length rest < length (c # s)
               then (case replace_all_fn ci r f rest st1 of (t, st2) \<Rightarrow> (out @ t, st2))
               else (case replace_all_fn ci r f s st1 of (t, st2) \<Rightarrow> (out @ c # t, st2))))"
  by pat_completeness auto
termination
  by (relation "measure (\<lambda>(ci, r, f, s, st). length s)") auto

text \<open>\<^verbatim>\<open>s.replace(regex, template)\<close> with the \<^verbatim>\<open>g\<close> flag; the template is a function of the captures.\<close>

definition replace_all :: "bool \<Rightarrow> re \<Rightarrow> (string list \<Rightarrow> string) \<Rightarrow> string \<Rightarrow> string" where
  "replace_all ci r tpl s = fst (replace_all_fn ci r (\<lambda>m caps st. (tpl caps, st)) s ())"

text \<open>\<^verbatim>\<open>s.replace(regex, template)\<close> without the \<^verbatim>\<open>g\<close> flag: the leftmost match only.\<close>

definition replace_first :: "bool \<Rightarrow> re \<Rightarrow> (string list \<Rightarrow> string) \<Rightarrow> string \<Rightarrow> string" where
  "replace_first ci r tpl s =
     (case find_first ci r s of None \<Rightarrow> s | Some (pre, rest, caps) \<Rightarrow> pre @ tpl caps @ rest)"

text \<open>\<^verbatim>\<open>s.indexOf(t) !== -1\<close>.\<close>

fun contains :: "string \<Rightarrow> string \<Rightarrow> bool" where
  "contains t [] = (t = [])"
| "contains t (c # s) = (prefix t (c # s) \<or> contains t s)"

text \<open>\<^verbatim>\<open>s.split(sep).join(rep)\<close>: every occurrence of \<open>sep\<close>, left to right, becomes \<open>rep\<close>.\<close>

fun join_chars :: "string \<Rightarrow> string \<Rightarrow> string" where
  "join_chars rep [] = []"
| "join_chars rep [c] = [c]"
| "join_chars rep (c # s) = c # rep @ join_chars rep s"

function split_nonempty :: "string \<Rightarrow> string \<Rightarrow> string \<Rightarrow> string" where
  "split_nonempty sep rep [] = []"
| "split_nonempty sep rep (c # s) =
     (if sep \<noteq> [] \<and> prefix sep (c # s)
      then rep @ split_nonempty sep rep (drop (length sep) (c # s))
      else c # split_nonempty sep rep s)"
  by pat_completeness auto
termination
  by (relation "measure (\<lambda>(sep, rep, s). length s)") (auto simp: neq_Nil_conv)

definition split_join :: "string \<Rightarrow> string \<Rightarrow> string \<Rightarrow> string" where
  "split_join sep rep s = (if sep = [] then join_chars rep s else split_nonempty sep rep s)"

text \<open>The decimal digits of an index, as string concatenation converts a number.\<close>

fun decimal :: "nat \<Rightarrow> string" where
  "decimal n = (if n < 10 then [digits ! n] else decimal (n div 10) @ [digits ! (n mod 10)])"


section \<open>What a match is: the words of a pattern\<close>

text \<open>
  The words a pattern can match, without the order in which the matcher tries them; the
  matcher finds only such words (\<open>bt_sound\<close>) and finds one whenever there is one
  (\<open>bt_complete\<close>).
\<close>

fun lang :: "bool \<Rightarrow> re \<Rightarrow> string set" where
  "lang ci (Chars p) = {w. list_all2 (same ci) p w}"
| "lang ci (One c) = {w. \<exists>x. w = [x] \<and> accepts ci c x}"
| "lang ci (Many c) = {w. list_all (accepts ci c) w}"
| "lang ci (Few c) = {w. list_all (accepts ci c) w}"
| "lang ci (Maybe c) = {w. w = [] \<or> (\<exists>x. w = [x] \<and> accepts ci c x)}"
| "lang ci (Seq a b) = {w. \<exists>u v. w = u @ v \<and> u \<in> lang ci a \<and> v \<in> lang ci b}"
| "lang ci (Alt a b) = lang ci a \<union> lang ci b"
| "lang ci (Group a) = lang ci a"

lemma lit_sound:
  "lit ci p s = Some s' \<Longrightarrow> \<exists>w. s = w @ s' \<and> list_all2 (same ci) p w"
proof (induction ci p s rule: lit.induct)
  case (3 ci p ps c s)
  then have "same ci p c" and "lit ci ps s = Some s'"
    by (auto split: if_splits)
  with 3 obtain w where "s = w @ s'" "list_all2 (same ci) ps w"
    by blast
  with \<open>same ci p c\<close> have "c # s = (c # w) @ s' \<and> list_all2 (same ci) (p # ps) (c # w)"
    by simp
  then show ?case by blast
qed auto

lemma many_sound:
  "many ci c s k = Some m \<Longrightarrow> \<exists>w s'. s = w @ s' \<and> list_all (accepts ci c) w \<and> k s' = Some m"
proof (induction s)
  case Nil
  then show ?case by auto
next
  case (Cons x s)
  show ?case
  proof (cases "accepts ci c x \<and> many ci c s k = Some m")
    case True
    with Cons.IH obtain w s' where "s = w @ s'" "list_all (accepts ci c) w" "k s' = Some m"
      by blast
    with True have "x # s = (x # w) @ s' \<and> list_all (accepts ci c) (x # w) \<and> k s' = Some m"
      by simp
    then show ?thesis by blast
  next
    case False
    with Cons.prems have "k (x # s) = Some m"
      by (auto split: if_splits option.splits)
    then have "x # s = [] @ (x # s) \<and> list_all (accepts ci c) [] \<and> k (x # s) = Some m"
      by simp
    then show ?thesis by blast
  qed
qed

lemma few_sound:
  "few ci c s k = Some m \<Longrightarrow> \<exists>w s'. s = w @ s' \<and> list_all (accepts ci c) w \<and> k s' = Some m"
proof (induction s)
  case Nil
  then show ?case by auto
next
  case (Cons x s)
  show ?case
  proof (cases "k (x # s) = Some m")
    case True
    then have "x # s = [] @ (x # s) \<and> list_all (accepts ci c) [] \<and> k (x # s) = Some m"
      by simp
    then show ?thesis by blast
  next
    case False
    with Cons.prems have "accepts ci c x" and "few ci c s k = Some m"
      by (auto split: if_splits option.splits)
    with Cons.IH obtain w s' where "s = w @ s'" "list_all (accepts ci c) w" "k s' = Some m"
      by blast
    with \<open>accepts ci c x\<close>
    have "x # s = (x # w) @ s' \<and> list_all (accepts ci c) (x # w) \<and> k s' = Some m"
      by simp
    then show ?thesis by blast
  qed
qed

lemma bt_sound:
  "bt ci r s caps k = Some m \<Longrightarrow>
   \<exists>w s' caps'. s = w @ s' \<and> w \<in> lang ci r \<and> k s' caps' = Some m"
proof (induction r arbitrary: s caps k)
  case (Chars p)
  then obtain s' where "lit ci p s = Some s'" "k s' caps = Some m"
    by (auto split: option.splits)
  with lit_sound [of ci p s s'] show ?case by auto
next
  case (One c)
  show ?case
  proof (cases s)
    case Nil
    with One show ?thesis by simp
  next
    case (Cons x t)
    with One have "accepts ci c x" and "k t caps = Some m"
      by (auto split: if_splits)
    with Cons have "s = [x] @ t \<and> [x] \<in> lang ci (One c) \<and> k t caps = Some m"
      by simp
    then show ?thesis by blast
  qed
next
  case (Many c)
  with many_sound [of ci c s "\<lambda>s'. k s' caps" m] show ?case by auto
next
  case (Few c)
  with few_sound [of ci c s "\<lambda>s'. k s' caps" m] show ?case by auto
next
  case (Maybe c)
  show ?case
  proof (cases s)
    case Nil
    with Maybe show ?thesis by auto
  next
    case (Cons x t)
    show ?thesis
    proof (cases "accepts ci c x \<and> k t caps = Some m")
      case True
      with Cons have "s = [x] @ t \<and> [x] \<in> lang ci (Maybe c) \<and> k t caps = Some m"
        by simp
      then show ?thesis by blast
    next
      case False
      with Maybe Cons have "k s caps = Some m"
        by (auto split: if_splits option.splits)
      then have "s = [] @ s \<and> [] \<in> lang ci (Maybe c) \<and> k s caps = Some m"
        by simp
      then show ?thesis by blast
    qed
  qed
next
  case (Seq a b)
  from Seq.prems have "bt ci a s caps (\<lambda>s' caps'. bt ci b s' caps' k) = Some m"
    by simp
  from Seq.IH(1) [OF this] obtain u s1 caps1
    where u: "s = u @ s1" "u \<in> lang ci a" "bt ci b s1 caps1 k = Some m"
    by blast
  from Seq.IH(2) [OF u(3)] obtain v s2 caps2
    where v: "s1 = v @ s2" "v \<in> lang ci b" "k s2 caps2 = Some m"
    by blast
  from u v have "s = (u @ v) @ s2 \<and> u @ v \<in> lang ci (Seq a b) \<and> k s2 caps2 = Some m"
    by auto
  then show ?case by blast
next
  case (Alt a b)
  then have "bt ci a s caps k = Some m \<or> bt ci b s caps k = Some m"
    by (auto split: option.splits)
  with Alt.IH show ?case by fastforce
next
  case (Group a)
  from Group.prems
  have "bt ci a s caps (\<lambda>s' caps'. k s' (caps' @ [take (length s - length s') s])) = Some m"
    by simp
  from Group.IH [OF this] show ?case by auto
qed

lemma exec_at_sound:
  "exec_at ci r s = Some (rest, caps) \<Longrightarrow> \<exists>w. s = w @ rest \<and> w \<in> lang ci r"
  unfolding exec_at_def by (drule bt_sound) auto

lemma find_first_sound:
  "find_first ci r s = Some (pre, rest, caps) \<Longrightarrow> \<exists>w. s = pre @ w @ rest \<and> w \<in> lang ci r"
proof (induction s arbitrary: pre)
  case Nil
  then show ?case
    by (auto split: option.splits dest: exec_at_sound)
next
  case (Cons c s)
  show ?case
  proof (cases "exec_at ci r (c # s)")
    case None
    with Cons.prems obtain pre' where "find_first ci r s = Some (pre', rest, caps)" "pre = c # pre'"
      by (auto split: option.splits)
    with Cons.IH show ?thesis by fastforce
  next
    case (Some m)
    with Cons.prems have "exec_at ci r (c # s) = Some (rest, caps)" "pre = []"
      by (auto split: option.splits)
    with exec_at_sound show ?thesis by fastforce
  qed
qed


lemma lit_complete: "list_all2 (same ci) p w \<Longrightarrow> lit ci p (w @ s) = Some s"
  by (induction p w rule: list_all2_induct) auto

lemma many_base: "k s \<noteq> None \<Longrightarrow> many ci c s k \<noteq> None"
  by (cases s) (auto split: option.splits)

lemma many_complete:
  "list_all (accepts ci c) w \<Longrightarrow> k s \<noteq> None \<Longrightarrow> many ci c (w @ s) k \<noteq> None"
  by (induction w) (auto simp: many_base split: option.splits)

lemma few_base: "k s \<noteq> None \<Longrightarrow> few ci c s k \<noteq> None"
  by (cases s) (auto split: option.splits)

lemma few_complete:
  "list_all (accepts ci c) w \<Longrightarrow> k s \<noteq> None \<Longrightarrow> few ci c (w @ s) k \<noteq> None"
  by (induction w) (auto simp: few_base split: option.splits)

lemma bt_complete:
  "w \<in> lang ci r \<Longrightarrow> (\<And>caps'. k s caps' \<noteq> None) \<Longrightarrow> bt ci r (w @ s) caps k \<noteq> None"
proof (induction r arbitrary: w s caps k)
  case (Chars p)
  then show ?case by (simp add: lit_complete)
next
  case (One c)
  then show ?case by auto
next
  case (Many c)
  then show ?case by (simp add: many_complete)
next
  case (Few c)
  then show ?case by (simp add: few_complete)
next
  case (Maybe c)
  from Maybe.prems(2) [of caps] obtain m where m: "k s caps = Some m"
    by auto
  from Maybe.prems(1) consider "w = []" | x where "w = [x]" "accepts ci c x"
    by auto
  then show ?case
  proof cases
    case 1
    with m show ?thesis by (cases s) (auto split: option.splits)
  next
    case 2
    with m show ?thesis by simp
  qed
next
  case (Seq a b)
  from Seq.prems(1) obtain u v where w: "w = u @ v" "u \<in> lang ci a" "v \<in> lang ci b"
    by auto
  have "\<And>caps'. bt ci b (v @ s) caps' k \<noteq> None"
    using Seq.IH(2) [OF w(3)] Seq.prems(2) by blast
  from Seq.IH(1) [OF w(2), of "\<lambda>s' caps'. bt ci b s' caps' k" "v @ s" caps, OF this]
  show ?case using w(1) by simp
next
  case (Alt a b)
  from Alt.prems(1) consider "w \<in> lang ci a" | "w \<in> lang ci b"
    by auto
  then show ?case
  proof cases
    case 1
    from Alt.IH(1) [OF 1, of k s caps] Alt.prems(2) show ?thesis
      by (auto split: option.splits)
  next
    case 2
    from Alt.IH(2) [OF 2, of k s caps] Alt.prems(2) show ?thesis
      by (auto split: option.splits)
  qed
next
  case (Group a)
  from Group.prems have "w \<in> lang ci a" by simp
  from Group.IH [OF this, of "\<lambda>s' caps'. k s' (caps' @ [take (length (w @ s) - length s') (w @ s)])" s caps]
  show ?case using Group.prems(2) by simp
qed

lemma exec_at_complete: "w \<in> lang ci r \<Longrightarrow> exec_at ci r (w @ s) \<noteq> None"
  unfolding exec_at_def by (rule bt_complete) auto

lemma find_first_complete: "w \<in> lang ci r \<Longrightarrow> find_first ci r (pre @ w @ rest) \<noteq> None"
proof (induction pre)
  case Nil
  from exec_at_complete [OF Nil, of rest] show ?case
    by (cases "w @ rest") (auto split: option.splits)
next
  case (Cons c pre)
  then show ?case by (auto split: option.splits)
qed

lemma test_iff: "test ci r s \<longleftrightarrow> (\<exists>pre w rest. s = pre @ w @ rest \<and> w \<in> lang ci r)"
proof
  assume "test ci r s"
  then obtain pre rest caps where "find_first ci r s = Some (pre, rest, caps)"
    by (auto simp: test_def)
  from find_first_sound [OF this] show "\<exists>pre w rest. s = pre @ w @ rest \<and> w \<in> lang ci r"
    by blast
next
  assume "\<exists>pre w rest. s = pre @ w @ rest \<and> w \<in> lang ci r"
  then obtain pre w rest where "s = pre @ w @ rest" "w \<in> lang ci r"
    by blast
  with find_first_complete [of w ci r pre rest] show "test ci r s"
    by (simp add: test_def)
qed

section \<open>The patterns of version 1.2.0\<close>

definition xlink_uri :: string where
  "xlink_uri = ''http://www.w3.org/1999/xlink''"

text \<open>\<^verbatim>\<open>/xmlns:ns\d+\s*=\s*["']http:\/\/www\.w3\.org\/1999\/xlink["']/i\<close>\<close>

definition hasIssue_pattern :: re where
  "hasIssue_pattern =
     cat [Chars ''xmlns:ns'', plus (In digits), Many (In ws), Chars ''='', Many (In ws),
          One (In quotes), Chars xlink_uri, One (In quotes)]"

text \<open>\<^verbatim>\<open>/"data:image\/[^;]+;base64,[\s\S]*?"/g\<close> and the same in single quotes.\<close>

definition base64_pattern :: "char \<Rightarrow> re" where
  "base64_pattern q =
     cat [Chars (q # ''data:image/''), plus (NotIn '';''), Chars '';base64,'', Few (NotIn []),
          Chars [q]]"

text \<open>\<^verbatim>\<open>/url\(\s*["']?#[^)"']*["']?\s*\)/gi\<close>\<close>

definition url_pattern :: re where
  "url_pattern =
     cat [Chars ''url('', Many (In ws), Maybe (In quotes), Chars ''#'',
          Many (NotIn (CHR '')'' # quotes)), Maybe (In quotes), Many (In ws), Chars '')'']"

text \<open>\<^verbatim>\<open>/(xlink:href|ns\d+:href|href)\s*=\s*["']#[^"']*["']/gi\<close>\<close>

definition href_pattern :: re where
  "href_pattern =
     cat [Group (Alt (Chars ''xlink:href'')
                  (Alt (cat [Chars ''ns'', plus (In digits), Chars '':href'']) (Chars ''href''))),
          Many (In ws), Chars ''='', Many (In ws), One (In quotes), Chars ''#'',
          Many (NotIn quotes), One (In quotes)]"

text \<open>\<^verbatim>\<open>/xmlns:ns(\d+)\s*=\s*["']http:\/\/www\.w3\.org\/1999\/xlink["']/gi\<close>\<close>

definition xlinkNsPattern :: re where
  "xlinkNsPattern =
     cat [Chars ''xmlns:ns'', Group (plus (In digits)), Many (In ws), Chars ''='', Many (In ws),
          One (In quotes), Chars xlink_uri, One (In quotes)]"

text \<open>\<^verbatim>\<open>new RegExp('\\s+ns' + nsNum + ':([a-zA-Z][a-zA-Z0-9-]*)\\s*=', 'gi')\<close>\<close>

definition nsToXlinkPattern :: "string \<Rightarrow> re" where
  "nsToXlinkPattern nsNum =
     cat [plus (In ws), Chars (''ns'' @ nsNum @ '':''),
          Group (Seq (One (In letters)) (Many (In (letters @ digits @ ''-'')))),
          Many (In ws), Chars ''='']"

text \<open>\<^verbatim>\<open>new RegExp('xmlns:ns' + nsNumForXmlns + '(\\s*=\\s*["\']http://www\\.w3\\.org/1999/xlink["\'])', 'gi')\<close>\<close>

definition xmlnsPattern :: "string \<Rightarrow> re" where
  "xmlnsPattern nsNum =
     cat [Chars (''xmlns:ns'' @ nsNum),
          Group (cat [Many (In ws), Chars ''='', Many (In ws), One (In quotes), Chars xlink_uri,
                      One (In quotes)])]"

text \<open>\<^verbatim>\<open>/<svg([^>]*)>/i\<close>\<close>

definition svg_pattern :: re where
  "svg_pattern = cat [Chars ''<svg'', Group (Many (NotIn ''>'')), Chars ''>'']"

text \<open>The first group of a match: \<^verbatim>\<open>$1\<close> in a template, \<^verbatim>\<open>m[1]\<close> of an \<^verbatim>\<open>exec\<close> result.\<close>

definition dollar1 :: "string list \<Rightarrow> string" where
  "dollar1 caps = (case caps of [] \<Rightarrow> ''$1'' | g # _ \<Rightarrow> g)"

definition group1 :: "string list \<Rightarrow> string" where
  "group1 caps = (case caps of [] \<Rightarrow> ''undefined'' | g # _ \<Rightarrow> g)"

section \<open>The normalizer of version 1.2.0\<close>

definition placeholderPrefix :: string where
  "placeholderPrefix = ''___BASE64_PLACEHOLDER_''"

definition idRefPlaceholderPrefix :: string where
  "idRefPlaceholderPrefix = ''___IDREF_PLACEHOLDER_''"

definition placeholder :: "string \<Rightarrow> nat \<Rightarrow> string" where
  "placeholder pfx i = pfx @ decimal i @ ''___''"

text \<open>
  The callback of the four protecting replacements: the match is pushed on the list of
  placeholders, and the placeholder of its index takes its place.
\<close>

definition protect_cb :: "string \<Rightarrow> string \<Rightarrow> string list \<Rightarrow> string list \<Rightarrow> string \<times> string list" where
  "protect_cb pfx m caps phs = (placeholder pfx (length phs), phs @ [m])"

text \<open>Steps 1 and 2: the protected text, the base64 placeholders and the id reference placeholders.\<close>

definition protect :: "string \<Rightarrow> string \<times> string list \<times> string list" where
  "protect svgString =
     (case replace_all_fn False (base64_pattern (CHR 0x22)) (protect_cb placeholderPrefix) svgString [] of
        (r1, b1) \<Rightarrow>
     (case replace_all_fn False (base64_pattern (CHR 0x27)) (protect_cb placeholderPrefix) r1 b1 of
        (r2, base64Placeholders) \<Rightarrow>
     (case replace_all_fn True url_pattern (protect_cb idRefPlaceholderPrefix) r2 [] of
        (r3, i1) \<Rightarrow>
     (case replace_all_fn True href_pattern (protect_cb idRefPlaceholderPrefix) r3 i1 of
        (r4, idRefPlaceholders) \<Rightarrow> (r4, base64Placeholders, idRefPlaceholders)))))"

lemma hasIssue_pattern_nonempty: "w \<in> lang True xlinkNsPattern \<Longrightarrow> w \<noteq> []"
  by (auto simp: xlinkNsPattern_def list_all2_Cons1)

lemma xlinkNsPattern_progress:
  assumes "find_first True xlinkNsPattern s = Some (pre, rest, caps)"
  shows "length rest < length s"
proof -
  from find_first_sound [OF assms] obtain w where "s = pre @ w @ rest" "w \<in> lang True xlinkNsPattern"
    by blast
  with hasIssue_pattern_nonempty [of w] show ?thesis by (cases w) auto
qed

text \<open>
  Step 3, the loop \<^verbatim>\<open>while ((xlinkMatch = xlinkNsPattern.exec(result)) !== null)\<close>: each
  round searches from the end of the last match. It ends because no match is empty.
\<close>

function xlink_prefixes :: "string \<Rightarrow> string list" where
  "xlink_prefixes s =
     (case find_first True xlinkNsPattern s of
        None \<Rightarrow> []
      | Some (pre, rest, caps) \<Rightarrow> group1 caps # xlink_prefixes rest)"
  by pat_completeness auto
termination
  by (relation "measure length") (auto dest: xlinkNsPattern_progress)

text \<open>The loops of steps 7 and 8 (and of the early return): placeholder \<open>n\<close> becomes the text it stands for.\<close>

definition restore :: "string \<Rightarrow> string list \<Rightarrow> string \<Rightarrow> string" where
  "restore pfx phs result =
     foldl (\<lambda>res n. split_join (placeholder pfx n) (phs ! n) res) result [0..<length phs]"

definition restore_all :: "string list \<Rightarrow> string list \<Rightarrow> string \<Rightarrow> string" where
  "restore_all base64Placeholders idRefPlaceholders result =
     restore placeholderPrefix base64Placeholders
       (restore idRefPlaceholderPrefix idRefPlaceholders result)"

text \<open>Step 4: \<^verbatim>\<open>nsN:attr=\<close> after white space becomes \<^verbatim>\<open> xlink:attr=\<close>, for every collected \<open>N\<close>.\<close>

definition rewrite_attrs :: "string list \<Rightarrow> string \<Rightarrow> string" where
  "rewrite_attrs xlinkNsPrefixes result =
     foldl (\<lambda>res nsNum. replace_all True (nsToXlinkPattern nsNum)
                           (\<lambda>caps. '' xlink:'' @ dollar1 caps @ ''='') res)
           result xlinkNsPrefixes"

text \<open>Step 5: the declaration \<^verbatim>\<open>xmlns:nsN="http://www.w3.org/1999/xlink"\<close> becomes \<^verbatim>\<open>xmlns:xlink=...\<close>.\<close>

definition rewrite_decls :: "string list \<Rightarrow> string \<Rightarrow> string" where
  "rewrite_decls xlinkNsPrefixes result =
     foldl (\<lambda>res nsNum. replace_all True (xmlnsPattern nsNum)
                           (\<lambda>caps. ''xmlns:xlink'' @ dollar1 caps) res)
           result xlinkNsPrefixes"

text \<open>Step 6: a text with \<^verbatim>\<open>xlink:href\<close> and no \<^verbatim>\<open>xmlns:xlink\<close> gets the declaration on its first svg tag.\<close>

definition ensure_xlink_decl :: "string \<Rightarrow> string" where
  \<open>ensure_xlink_decl result =
     (if contains ''xlink:href'' result \<and> \<not> contains ''xmlns:xlink'' result
      then replace_first True svg_pattern
             (\<lambda>caps. ''<svg'' @ dollar1 caps @ '' xmlns:xlink="http://www.w3.org/1999/xlink">'') result
      else result)\<close>

definition normalize_string :: "string \<Rightarrow> string" where
  "normalize_string svgString =
     (case protect svgString of
        (result, base64Placeholders, idRefPlaceholders) \<Rightarrow>
          (let xlinkNsPrefixes = xlink_prefixes result in
           if xlinkNsPrefixes = []
           then restore_all base64Placeholders idRefPlaceholders result
           else restore_all base64Placeholders idRefPlaceholders
                  (ensure_xlink_decl
                     (rewrite_decls xlinkNsPrefixes (rewrite_attrs xlinkNsPrefixes result)))))"

text \<open>\<^verbatim>\<open>if (!svgString || typeof svgString !== 'string') return svgString\<close>: the empty string and every value that is no string come back as they are.\<close>

fun normalize :: "'a jsval \<Rightarrow> 'a jsval" where
  "normalize (JString s) = (if s = [] then JString s else JString (normalize_string s))"
| "normalize (JOther v) = JOther v"

fun hasIssue :: "'a jsval \<Rightarrow> bool" where
  "hasIssue (JString s) = (if s = [] then False else test True hasIssue_pattern s)"
| "hasIssue (JOther v) = False"


section \<open>The normalizer of version 1.1.0, the second variant in the repository\<close>

text \<open>\<^verbatim>\<open>/"data:image\/[^;]+;base64,[^"]*"/g\<close> and the same in single quotes.\<close>

definition base64_pattern_v2 :: "char \<Rightarrow> re" where
  "base64_pattern_v2 q =
     cat [Chars (q # ''data:image/''), plus (NotIn '';''), Chars '';base64,'', Many (NotIn [q]),
          Chars [q]]"

text \<open>\<^verbatim>\<open>/\s*xmlns:ns\d+\s*=\s*["'][^"']*["']/gi\<close>\<close>

definition xmlns_decl_pattern_v2 :: re where
  "xmlns_decl_pattern_v2 =
     cat [Many (In ws), Chars ''xmlns:ns'', plus (In digits), Many (In ws), Chars ''='',
          Many (In ws), One (In quotes), Many (NotIn quotes), One (In quotes)]"

text \<open>\<^verbatim>\<open>/<(\/?)\s*ns\d+:/gi\<close>\<close>

definition tag_prefix_pattern_v2 :: re where
  "tag_prefix_pattern_v2 =
     cat [Chars ''<'', Group (Maybe (In ''/'')), Many (In ws), Chars ''ns'', plus (In digits),
          Chars '':'']"

text \<open>\<^verbatim>\<open>/\s+ns\d+:([a-zA-Z][a-zA-Z0-9-]*)\s*=/gi\<close>\<close>

definition attr_prefix_pattern_v2 :: re where
  "attr_prefix_pattern_v2 =
     cat [plus (In ws), Chars ''ns'', plus (In digits), Chars '':'',
          Group (Seq (One (In letters)) (Many (In (letters @ digits @ ''-'')))),
          Many (In ws), Chars ''='']"

text \<open>\<^verbatim>\<open>/(<[^>]*?)\s{2,}([^>]*>)/g\<close>, \<^verbatim>\<open>/\s{2,}/g\<close>, \<^verbatim>\<open>/\s+>/g\<close> and \<^verbatim>\<open>/<\s+/g\<close>\<close>

definition tag_spaces_pattern_v2 :: re where
  "tag_spaces_pattern_v2 =
     cat [Group (Seq (Chars ''<'') (Few (NotIn ''>''))), One (In ws), One (In ws), Many (In ws),
          Group (Seq (Many (NotIn ''>'')) (Chars ''>''))]"

definition spaces2_pattern_v2 :: re where
  "spaces2_pattern_v2 = cat [One (In ws), One (In ws), Many (In ws)]"

definition spaces_gt_pattern_v2 :: re where
  "spaces_gt_pattern_v2 = cat [plus (In ws), Chars ''>'']"

definition lt_spaces_pattern_v2 :: re where
  "lt_spaces_pattern_v2 = cat [Chars ''<'', plus (In ws)]"

text \<open>
  \<^verbatim>\<open>s.replace(pattern, replacement)\<close> with a string pattern: the first occurrence only,
  and \<^verbatim>\<open>$$\<close>, \<^verbatim>\<open>$&\<close>, \<^verbatim>\<open>$`\<close> and \<^verbatim>\<open>$'\<close> of the replacement are expanded.
\<close>

fun split_at_first :: "string \<Rightarrow> string \<Rightarrow> (string \<times> string) option" where
  "split_at_first pat [] = (if pat = [] then Some ([], []) else None)"
| "split_at_first pat (c # s) =
     (if prefix pat (c # s) then Some ([], drop (length pat) (c # s))
      else (case split_at_first pat s of
              Some (front, back) \<Rightarrow> Some (c # front, back)
            | None \<Rightarrow> None))"

fun expand_dollar :: "string \<Rightarrow> string \<Rightarrow> string \<Rightarrow> string \<Rightarrow> string" where
  "expand_dollar m front back [] = []"
| "expand_dollar m front back [c] = [c]"
| "expand_dollar m front back (c # d # t) =
     (if c = CHR ''$'' \<and> d = CHR ''$'' then CHR ''$'' # expand_dollar m front back t
      else if c = CHR ''$'' \<and> d = CHR ''&'' then m @ expand_dollar m front back t
      else if c = CHR ''$'' \<and> d = CHR ''`'' then front @ expand_dollar m front back t
      else if c = CHR ''$'' \<and> d = CHR 0x27 then back @ expand_dollar m front back t
      else c # expand_dollar m front back (d # t))"

definition replace_string :: "string \<Rightarrow> string \<Rightarrow> string \<Rightarrow> string" where
  "replace_string pat replacement s =
     (case split_at_first pat s of
        None \<Rightarrow> s
      | Some (front, back) \<Rightarrow> front @ expand_dollar pat front back replacement @ back)"

definition restore_v2 :: "string list \<Rightarrow> string \<Rightarrow> string" where
  "restore_v2 phs result =
     foldl (\<lambda>res i. replace_string (placeholder placeholderPrefix i) (phs ! i) res)
           result [0..<length phs]"

definition normalize_string_v2 :: "string \<Rightarrow> string" where
  \<open>normalize_string_v2 svgString =
     (case replace_all_fn False (base64_pattern_v2 (CHR 0x22)) (protect_cb placeholderPrefix) svgString [] of
        (r1, b1) \<Rightarrow>
     (case replace_all_fn False (base64_pattern_v2 (CHR 0x27)) (protect_cb placeholderPrefix) r1 b1 of
        (r2, base64Placeholders) \<Rightarrow>
       (let xlinkNsPrefixes = xlink_prefixes r2;
            r3 = replace_all True xmlns_decl_pattern_v2 (\<lambda>caps. []) r2;
            r4 = replace_all True tag_prefix_pattern_v2 (\<lambda>caps. ''<'' @ dollar1 caps) r3;
            r5 = rewrite_attrs xlinkNsPrefixes r4;
            r6 = replace_all True attr_prefix_pattern_v2 (\<lambda>caps. '' '' @ dollar1 caps @ ''='') r5;
            r7 = ensure_xlink_decl r6;
            r8 = (if \<not> contains ''xmlns="http://www.w3.org/2000/svg"'' r7 \<and>
                     \<not> contains (''xmlns='' @ [CHR 0x27] @ ''http://www.w3.org/2000/svg'' @ [CHR 0x27]) r7
                  then replace_first True svg_pattern
                         (\<lambda>caps. ''<svg'' @ dollar1 caps @ '' xmlns="http://www.w3.org/2000/svg">'') r7
                  else r7);
            r9 = fst (replace_all_fn False tag_spaces_pattern_v2
                        (\<lambda>m caps st. (replace_all False spaces2_pattern_v2 (\<lambda>caps. '' '') m, st)) r8 ());
            r10 = replace_all False spaces_gt_pattern_v2 (\<lambda>caps. ''>'') r9;
            r11 = replace_all False lt_spaces_pattern_v2 (\<lambda>caps. ''<'') r10
        in restore_v2 base64Placeholders r11)))\<close>

fun normalize_v2 :: "'a jsval \<Rightarrow> 'a jsval" where
  "normalize_v2 (JString s) = (if s = [] then JString s else JString (normalize_string_v2 s))"
| "normalize_v2 (JOther v) = JOther v"

text \<open>\<^verbatim>\<open>/ns\d+:/i\<close>, the test of version 1.1.0.\<close>

definition hasIssue_pattern_v2 :: re where
  "hasIssue_pattern_v2 = cat [Chars ''ns'', plus (In digits), Chars '':'']"

fun hasIssue_v2 :: "'a jsval \<Rightarrow> bool" where
  "hasIssue_v2 (JString s) = (if s = [] then False else test True hasIssue_pattern_v2 s)"
| "hasIssue_v2 (JOther v) = False"


section \<open>The words of the specification\<close>

text \<open>How often a text occurs in another: the number of positions at which it starts.\<close>

fun occurrences :: "string \<Rightarrow> string \<Rightarrow> nat" where
  "occurrences t [] = (if t = [] then 1 else 0)"
| "occurrences t (c # s) = (if prefix t (c # s) then 1 else 0) + occurrences t s"

text \<open>
  The shape the specification gives for the detector, read as it is written:
  \<^verbatim>\<open>xmlns:ns<digits>="http://www.w3.org/1999/xlink"\<close>, in any letter case, in double quotes
  or in single quotes.
\<close>

definition spec_decl_shape :: "char \<Rightarrow> re" where
  "spec_decl_shape q =
     cat [Chars ''xmlns:ns'', plus (In digits), Chars (''='' @ [q] @ xlink_uri @ [q])]"

definition spec_hasIssue :: "string \<Rightarrow> bool" where
  "spec_hasIssue s =
     (test True (spec_decl_shape (CHR 0x22)) s \<or> test True (spec_decl_shape (CHR 0x27)) s)"

text \<open>
  The declaration the detector accepts, as a set of words: the pattern of \<open>hasIssue\<close>
  written out.
\<close>

lemma canonicalize_nonletter:
  "a \<notin> set letters \<Longrightarrow> canonicalize a = canonicalize c \<longleftrightarrow> a = c"
  by (auto simp: canonicalize_def letters_def lowers_def uppers_def split: option.splits if_splits)

lemma accepts_digits [simp]: "accepts ci (In digits) c \<longleftrightarrow> c \<in> set digits"
  by (cases ci) (auto simp: same_def digits_def canonicalize_nonletter letters_def lowers_def uppers_def)

lemma accepts_ws [simp]: "accepts ci (In ws) c \<longleftrightarrow> c \<in> set ws"
  by (cases ci) (auto simp: same_def ws_def canonicalize_nonletter letters_def lowers_def uppers_def)

lemma accepts_quotes [simp]: "accepts ci (In quotes) c \<longleftrightarrow> c \<in> set quotes"
  by (cases ci) (auto simp: same_def quotes_def canonicalize_nonletter letters_def lowers_def uppers_def)

declare accepts.simps [simp del]

definition ci_equal :: "string \<Rightarrow> string \<Rightarrow> bool" where
  "ci_equal a b = list_all2 (same True) a b"

definition decl_words :: "string set" where
  "decl_words =
     {w. \<exists>x ds w1 w2 q1 u q2.
           w = x @ ds @ w1 @ ''='' @ w2 @ [q1] @ u @ [q2]
         \<and> ci_equal ''xmlns:ns'' x \<and> ds \<noteq> [] \<and> set ds \<subseteq> set digits
         \<and> set w1 \<subseteq> set ws \<and> set w2 \<subseteq> set ws
         \<and> q1 \<in> set quotes \<and> ci_equal xlink_uri u \<and> q2 \<in> set quotes}"

lemma same_eq_sign [simp]: "same ci (CHR ''='') c \<longleftrightarrow> c = CHR ''=''"
  by (cases ci) (auto simp: same_def canonicalize_nonletter letters_def lowers_def uppers_def)

lemma list_all_accepts_digits [simp]: "list_all (accepts ci (In digits)) w \<longleftrightarrow> set w \<subseteq> set digits"
  by (auto simp: list_all_iff)

lemma list_all_accepts_ws [simp]: "list_all (accepts ci (In ws)) w \<longleftrightarrow> set w \<subseteq> set ws"
  by (auto simp: list_all_iff)

lemma lang_SeqI: "u \<in> lang ci a \<Longrightarrow> v \<in> lang ci b \<Longrightarrow> u @ v \<in> lang ci (Seq a b)"
  by auto

lemma lang_SeqE:
  assumes "w \<in> lang ci (Seq a b)"
  obtains u v where "w = u @ v" "u \<in> lang ci a" "v \<in> lang ci b"
  using assms by auto

lemma lang_hasIssue_pattern: "lang True hasIssue_pattern = decl_words"
proof (rule set_eqI, rule iffI)
  fix w
  assume "w \<in> lang True hasIssue_pattern"
  then have "w \<in> lang True (Seq (Chars ''xmlns:ns'') (Seq (Seq (One (In digits)) (Many (In digits)))
      (Seq (Many (In ws)) (Seq (Chars ''='') (Seq (Many (In ws)) (Seq (One (In quotes))
      (Seq (Chars xlink_uri) (One (In quotes)))))))))"
    by (simp add: hasIssue_pattern_def plus_def)
  then obtain x r1 where 1: "w = x @ r1" "x \<in> lang True (Chars ''xmlns:ns'')" and t1:
    "r1 \<in> lang True (Seq (Seq (One (In digits)) (Many (In digits)))
      (Seq (Many (In ws)) (Seq (Chars ''='') (Seq (Many (In ws)) (Seq (One (In quotes))
      (Seq (Chars xlink_uri) (One (In quotes))))))))"
    by (rule lang_SeqE)
  from t1 obtain ds r2 where 2: "r1 = ds @ r2" "ds \<in> lang True (Seq (One (In digits)) (Many (In digits)))" and t2:
    "r2 \<in> lang True (Seq (Many (In ws)) (Seq (Chars ''='') (Seq (Many (In ws)) (Seq (One (In quotes))
      (Seq (Chars xlink_uri) (One (In quotes)))))))"
    by (rule lang_SeqE)
  from t2 obtain w1 r3 where 3: "r2 = w1 @ r3" "w1 \<in> lang True (Many (In ws))" and t3:
    "r3 \<in> lang True (Seq (Chars ''='') (Seq (Many (In ws)) (Seq (One (In quotes))
      (Seq (Chars xlink_uri) (One (In quotes))))))"
    by (rule lang_SeqE)
  from t3 obtain e r4 where 4: "r3 = e @ r4" "e \<in> lang True (Chars ''='')" and t4:
    "r4 \<in> lang True (Seq (Many (In ws)) (Seq (One (In quotes)) (Seq (Chars xlink_uri) (One (In quotes)))))"
    by (rule lang_SeqE)
  from t4 obtain w2 r5 where 5: "r4 = w2 @ r5" "w2 \<in> lang True (Many (In ws))" and t5:
    "r5 \<in> lang True (Seq (One (In quotes)) (Seq (Chars xlink_uri) (One (In quotes))))"
    by (rule lang_SeqE)
  from t5 obtain q1s r6 where 6: "r5 = q1s @ r6" "q1s \<in> lang True (One (In quotes))" and t6:
    "r6 \<in> lang True (Seq (Chars xlink_uri) (One (In quotes)))"
    by (rule lang_SeqE)
  from t6 obtain u q2s where 7: "r6 = u @ q2s" "u \<in> lang True (Chars xlink_uri)"
    "q2s \<in> lang True (One (In quotes))"
    by (rule lang_SeqE)
  from 6(2) obtain q1 where q1: "q1s = [q1]" "q1 \<in> set quotes"
    by auto
  from 7(3) obtain q2 where q2: "q2s = [q2]" "q2 \<in> set quotes"
    by auto
  from 4(2) have e: "e = ''=''"
    by (auto simp: list_all2_Cons1)
  from 2(2) have ds: "ds \<noteq> []" "set ds \<subseteq> set digits"
    by auto
  have "w = x @ ds @ w1 @ ''='' @ w2 @ [q1] @ u @ [q2]
         \<and> ci_equal ''xmlns:ns'' x \<and> ds \<noteq> [] \<and> set ds \<subseteq> set digits
         \<and> set w1 \<subseteq> set ws \<and> set w2 \<subseteq> set ws
         \<and> q1 \<in> set quotes \<and> ci_equal xlink_uri u \<and> q2 \<in> set quotes"
    using 1 2(1) 3 4(1) 5 6(1) 7(1,2) q1 q2 e ds by (simp add: ci_equal_def)
  then show "w \<in> decl_words"
    unfolding decl_words_def by blast
next
  fix w
  assume "w \<in> decl_words"
  then obtain x ds w1 w2 q1 u q2 where w:
    "w = x @ ds @ w1 @ ''='' @ w2 @ [q1] @ u @ [q2]"
    "ci_equal ''xmlns:ns'' x" "ds \<noteq> []" "set ds \<subseteq> set digits"
    "set w1 \<subseteq> set ws" "set w2 \<subseteq> set ws"
    "q1 \<in> set quotes" "ci_equal xlink_uri u" "q2 \<in> set quotes"
    unfolding decl_words_def by blast
  from w(3) obtain d ds' where ds: "ds = [d] @ ds'"
    by (cases ds) auto
  have a: "x \<in> lang True (Chars ''xmlns:ns'')"
    using w(2) by (simp add: ci_equal_def)
  have b: "ds \<in> lang True (Seq (One (In digits)) (Many (In digits)))"
    unfolding ds using w(4) ds by (intro lang_SeqI) auto
  have c: "w1 \<in> lang True (Many (In ws))" "w2 \<in> lang True (Many (In ws))"
    using w(5,6) by auto
  have d: "''='' \<in> lang True (Chars ''='')"
    by simp
  have e: "[q1] \<in> lang True (One (In quotes))" "[q2] \<in> lang True (One (In quotes))"
    using w(7,9) by auto
  have f: "u \<in> lang True (Chars xlink_uri)"
    using w(8) by (simp add: ci_equal_def)
  have "x @ ds @ w1 @ ''='' @ w2 @ [q1] @ u @ [q2] \<in> lang True (Seq (Chars ''xmlns:ns'') (Seq (Seq (One (In digits)) (Many (In digits)))
      (Seq (Many (In ws)) (Seq (Chars ''='') (Seq (Many (In ws)) (Seq (One (In quotes))
      (Seq (Chars xlink_uri) (One (In quotes)))))))))"
    by (intro lang_SeqI a b c d e f)
  then show "w \<in> lang True hasIssue_pattern"
    by (simp add: hasIssue_pattern_def plus_def w(1))
qed

section \<open>A character no part of a pattern takes\<close>

text \<open>
  A character that every character class and every literal of a pattern rejects cuts the
  text in two for the matcher: no match reaches over it, and a replacement of all matches
  works on both sides alone.
\<close>

fun never :: "bool \<Rightarrow> re \<Rightarrow> char \<Rightarrow> bool" where
  "never ci (Chars p) c = (\<not> list_ex (\<lambda>a. same ci a c) p)"
| "never ci (One cs) c = (\<not> accepts ci cs c)"
| "never ci (Many cs) c = (\<not> accepts ci cs c)"
| "never ci (Few cs) c = (\<not> accepts ci cs c)"
| "never ci (Maybe cs) c = (\<not> accepts ci cs c)"
| "never ci (Seq a b) c = (never ci a c \<and> never ci b c)"
| "never ci (Alt a b) c = (never ci a c \<and> never ci b c)"
| "never ci (Group a) c = never ci a c"

lemma lit_barrier:
  "\<not> list_ex (\<lambda>a. same ci a c) p \<Longrightarrow>
   lit ci p (a @ c # b) = map_option (\<lambda>s'. s' @ c # b) (lit ci p a)"
  by (induction ci p a rule: lit.induct) auto

lemma many_barrier:
  "\<not> accepts ci cs c \<Longrightarrow> (\<And>s'. k (s' @ c # b) = k' s') \<Longrightarrow>
   many ci cs (a @ c # b) k = many ci cs a k'"
proof (induction a)
  case Nil
  from Nil(2) [of "[]"] Nil(1) show ?case
    by (simp split: option.splits)
next
  case (Cons x a)
  from Cons.IH [OF Cons.prems] Cons.prems(2) [of "x # a"] show ?case
    by (simp split: option.splits)
qed

lemma few_barrier:
  "\<not> accepts ci cs c \<Longrightarrow> (\<And>s'. k (s' @ c # b) = k' s') \<Longrightarrow>
   few ci cs (a @ c # b) k = few ci cs a k'"
proof (induction a)
  case Nil
  from Nil(2) [of "[]"] Nil(1) show ?case
    by (simp split: option.splits)
next
  case (Cons x a)
  from Cons.IH [OF Cons.prems] Cons.prems(2) [of "x # a"] show ?case
    by (simp split: option.splits)
qed

lemma bt_barrier:
  "never ci r c \<Longrightarrow> (\<And>s' caps'. k (s' @ c # b) caps' = k' s' caps') \<Longrightarrow>
   bt ci r (a @ c # b) caps k = bt ci r a caps k'"
proof (induction r arbitrary: a caps k k')
  case (Chars p)
  then show ?case
    by (cases "lit ci p a") (simp_all add: lit_barrier)
next
  case (One cs)
  then show ?case by (cases a) auto
next
  case (Many cs)
  then show ?case by (simp add: many_barrier)
next
  case (Few cs)
  then show ?case by (simp add: few_barrier)
next
  case (Maybe cs)
  show ?case
  proof (cases a)
    case Nil
    with Maybe.prems(1) Maybe.prems(2) [of "[]"] show ?thesis by simp
  next
    case (Cons x t)
    with Maybe.prems(2) [of t] Maybe.prems(2) [of "x # t"] show ?thesis
      by (simp split: option.splits)
  qed
next
  case (Seq r1 r2)
  have "\<And>s' caps'. bt ci r2 (s' @ c # b) caps' k = bt ci r2 s' caps' k'"
    using Seq.IH(2) Seq.prems by simp
  with Seq.IH(1) [of "\<lambda>s' caps'. bt ci r2 s' caps' k" "\<lambda>s' caps'. bt ci r2 s' caps' k'" a caps]
    Seq.prems(1)
  show ?case by simp
next
  case (Alt r1 r2)
  from Alt.prems have "bt ci r1 (a @ c # b) caps k = bt ci r1 a caps k'"
    and "bt ci r2 (a @ c # b) caps k = bt ci r2 a caps k'"
    by (auto intro: Alt.IH)
  then show ?case by (simp split: option.splits)
next
  case (Group r)
  have "\<And>s' caps'. k (s' @ c # b) (caps' @ [take (length (a @ c # b) - length (s' @ c # b)) (a @ c # b)])
      = k' s' (caps' @ [take (length a - length s') a])"
    using Group.prems(2) by simp
  with Group.IH [of "\<lambda>s' caps'. k s' (caps' @ [take (length (a @ c # b) - length s') (a @ c # b)])"
      "\<lambda>s' caps'. k' s' (caps' @ [take (length a - length s') a])" a caps] Group.prems(1)
  show ?case by simp
qed

lemma many_map_option:
  "many ci cs s (\<lambda>s'. map_option f (k s')) = map_option f (many ci cs s k)"
  by (induction s) (auto split: option.splits)

lemma few_map_option:
  "few ci cs s (\<lambda>s'. map_option f (k s')) = map_option f (few ci cs s k)"
  by (induction s) (auto split: option.splits)

lemma bt_map_option:
  "bt ci r s caps (\<lambda>s' caps'. map_option f (k s' caps')) = map_option f (bt ci r s caps k)"
proof (induction r arbitrary: s caps k)
  case (Chars p)
  then show ?case by (simp split: option.splits)
next
  case (One cs)
  then show ?case by (cases s) auto
next
  case (Many cs)
  then show ?case by (simp add: many_map_option)
next
  case (Few cs)
  then show ?case by (simp add: few_map_option)
next
  case (Maybe cs)
  then show ?case by (cases s) (auto split: option.splits)
next
  case (Seq r1 r2)
  then show ?case by simp
next
  case (Alt r1 r2)
  then show ?case by (simp split: option.splits)
next
  case (Group r)
  from Group [of s caps "\<lambda>s' caps'. k s' (caps' @ [take (length s - length s') s])"]
  show ?case by simp
qed

lemma exec_at_barrier:
  assumes "never ci r c"
  shows "exec_at ci r (a @ c # b) = map_option (\<lambda>(s', caps). (s' @ c # b, caps)) (exec_at ci r a)"
proof -
  have "bt ci r (a @ c # b) [] (\<lambda>s' caps. Some (s', caps))
      = bt ci r a [] (\<lambda>s' caps. map_option (\<lambda>(s', caps). (s' @ c # b, caps)) (Some (s', caps)))"
    by (rule bt_barrier [OF assms]) simp
  then show ?thesis
    by (simp only: exec_at_def bt_map_option)
qed

lemma take_short: "n \<le> length u \<Longrightarrow> take n (u @ v) = take n u"
  by simp

lemma replace_all_fn_barrier:
  assumes nv: "never ci r c"
  shows "replace_all_fn ci r f (a @ c # b) st =
     (case replace_all_fn ci r f a st of
        (t1, st1) \<Rightarrow> (case replace_all_fn ci r f b st1 of (t2, st2) \<Rightarrow> (t1 @ c # t2, st2)))"
proof (induction a arbitrary: st rule: length_induct)
  case (1 a)
  show ?case
  proof (cases a)
    case Nil
    show ?thesis
    proof (cases "exec_at ci r []")
      case None
      with Nil exec_at_barrier [OF nv, of "[]" b] show ?thesis
        by (simp split: prod.splits)
    next
      case (Some m)
      obtain rest caps where m: "m = (rest, caps)"
        by (cases m)
      from exec_at_sound [of ci r "[]" rest caps] Some m have rest: "rest = []"
        by auto
      with Nil Some m exec_at_barrier [OF nv, of "[]" b] show ?thesis
        by (simp split: prod.splits)
    qed
  next
    case (Cons x a')
    show ?thesis
    proof (cases "exec_at ci r (x # a')")
      case None
      with exec_at_barrier [OF nv, of "x # a'" b] have "exec_at ci r (x # a' @ c # b) = None"
        by simp
      moreover from 1 Cons have "replace_all_fn ci r f (a' @ c # b) st =
         (case replace_all_fn ci r f a' st of
            (t1, st1) \<Rightarrow> (case replace_all_fn ci r f b st1 of (t2, st2) \<Rightarrow> (t1 @ c # t2, st2)))"
        by simp
      ultimately show ?thesis
        using Cons None by (simp split: prod.splits)
    next
      case (Some m)
      obtain rest caps where m: "m = (rest, caps)"
        by (cases m)
      from exec_at_sound [of ci r "x # a'" rest caps] Some m obtain w where w: "x # a' = w @ rest"
        by auto
      then have len: "length rest \<le> length (x # a')"
        by (metis length_append le_add2)
      from exec_at_barrier [OF nv, of "x # a'" b] Some m
      have e: "exec_at ci r (x # a' @ c # b) = Some (rest @ c # b, caps)"
        by simp
      have tk: "take (length (x # a' @ c # b) - length (rest @ c # b)) (x # a' @ c # b)
          = take (length (x # a') - length rest) (x # a')"
        using len take_short [of "length (x # a') - length rest" "x # a'" "c # b"] by simp
      obtain out st1 where f: "f (take (length (x # a') - length rest) (x # a')) caps st = (out, st1)"
        by (cases "f (take (length (x # a') - length rest) (x # a')) caps st")
      show ?thesis
      proof (cases "length rest < length (x # a')")
        case True
        with 1 Cons have "replace_all_fn ci r f (rest @ c # b) st1 =
          (case replace_all_fn ci r f rest st1 of
            (t1, st1) \<Rightarrow> (case replace_all_fn ci r f b st1 of (t2, st2) \<Rightarrow> (t1 @ c # t2, st2)))"
          by simp
        with True Cons Some m e tk f show ?thesis
          by (simp split: prod.splits)
      next
        case False
        from 1 Cons have "replace_all_fn ci r f (a' @ c # b) st1 =
          (case replace_all_fn ci r f a' st1 of
            (t1, st1) \<Rightarrow> (case replace_all_fn ci r f b st1 of (t2, st2) \<Rightarrow> (t1 @ c # t2, st2)))"
          by simp
        with False Cons Some m e tk f show ?thesis
          by (simp split: prod.splits)
      qed
    qed
  qed
qed

lemma replace_all_barrier:
  "never ci r c \<Longrightarrow>
   replace_all ci r tpl (a @ c # b) = replace_all ci r tpl a @ c # replace_all ci r tpl b"
  by (simp add: replace_all_def replace_all_fn_barrier split: prod.splits)

section \<open>Matches with their captures\<close>

fun matches :: "bool \<Rightarrow> re \<Rightarrow> string \<Rightarrow> string list \<Rightarrow> bool" where
  "matches ci (Chars p) w cs = (list_all2 (same ci) p w \<and> cs = [])"
| "matches ci (One c) w cs = ((\<exists>x. w = [x] \<and> accepts ci c x) \<and> cs = [])"
| "matches ci (Many c) w cs = (list_all (accepts ci c) w \<and> cs = [])"
| "matches ci (Few c) w cs = (list_all (accepts ci c) w \<and> cs = [])"
| "matches ci (Maybe c) w cs = ((w = [] \<or> (\<exists>x. w = [x] \<and> accepts ci c x)) \<and> cs = [])"
| "matches ci (Seq a b) w cs =
     (\<exists>u v c1 c2. w = u @ v \<and> cs = c1 @ c2 \<and> matches ci a u c1 \<and> matches ci b v c2)"
| "matches ci (Alt a b) w cs = (matches ci a w cs \<or> matches ci b w cs)"
| "matches ci (Group a) w cs = (\<exists>c. cs = c @ [w] \<and> matches ci a w c)"

lemma matches_lang: "matches ci r w cs \<Longrightarrow> w \<in> lang ci r"
  by (induction r arbitrary: w cs) (auto, blast)

lemma bt_sound_caps:
  "bt ci r s caps k = Some m \<Longrightarrow>
   \<exists>w s' cs. s = w @ s' \<and> matches ci r w cs \<and> k s' (caps @ cs) = Some m"
proof (induction r arbitrary: s caps k)
  case (Chars p)
  then obtain s' where "lit ci p s = Some s'" "k s' caps = Some m"
    by (auto split: option.splits)
  with lit_sound [of ci p s s'] show ?case by auto
next
  case (One c)
  show ?case
  proof (cases s)
    case Nil
    with One show ?thesis by simp
  next
    case (Cons x t)
    with One have "accepts ci c x" and "k t caps = Some m"
      by (auto split: if_splits)
    with Cons have "s = [x] @ t \<and> matches ci (One c) [x] [] \<and> k t (caps @ []) = Some m"
      by simp
    then show ?thesis by blast
  qed
next
  case (Many c)
  with many_sound [of ci c s "\<lambda>s'. k s' caps" m] show ?case by auto
next
  case (Few c)
  with few_sound [of ci c s "\<lambda>s'. k s' caps" m] show ?case by auto
next
  case (Maybe c)
  show ?case
  proof (cases s)
    case Nil
    with Maybe show ?thesis by auto
  next
    case (Cons x t)
    show ?thesis
    proof (cases "accepts ci c x \<and> k t caps = Some m")
      case True
      with Cons have "s = [x] @ t \<and> matches ci (Maybe c) [x] [] \<and> k t (caps @ []) = Some m"
        by simp
      then show ?thesis by blast
    next
      case False
      with Maybe Cons have "k s caps = Some m"
        by (auto split: if_splits option.splits)
      then have "s = [] @ s \<and> matches ci (Maybe c) [] [] \<and> k s (caps @ []) = Some m"
        by simp
      then show ?thesis by blast
    qed
  qed
next
  case (Seq a b)
  from Seq.prems have "bt ci a s caps (\<lambda>s' caps'. bt ci b s' caps' k) = Some m"
    by simp
  from Seq.IH(1) [OF this] obtain u s1 c1
    where u: "s = u @ s1" "matches ci a u c1" "bt ci b s1 (caps @ c1) k = Some m"
    by blast
  from Seq.IH(2) [OF u(3)] obtain v s2 c2
    where v: "s1 = v @ s2" "matches ci b v c2" "k s2 ((caps @ c1) @ c2) = Some m"
    by blast
  from u v have "s = (u @ v) @ s2 \<and> matches ci (Seq a b) (u @ v) (c1 @ c2)
      \<and> k s2 (caps @ c1 @ c2) = Some m"
    by auto
  then show ?case by blast
next
  case (Alt a b)
  then have "bt ci a s caps k = Some m \<or> bt ci b s caps k = Some m"
    by (auto split: option.splits)
  with Alt.IH show ?case by fastforce
next
  case (Group a)
  from Group.prems
  have "bt ci a s caps (\<lambda>s' caps'. k s' (caps' @ [take (length s - length s') s])) = Some m"
    by simp
  from Group.IH [OF this] obtain w s' c where
    w: "s = w @ s'" "matches ci a w c" "k s' ((caps @ c) @ [take (length s - length s') s]) = Some m"
    by blast
  then have "s = w @ s' \<and> matches ci (Group a) w (c @ [w]) \<and> k s' (caps @ c @ [w]) = Some m"
    by simp
  then show ?case by blast
qed

lemma exec_at_sound_caps:
  "exec_at ci r s = Some (rest, caps) \<Longrightarrow> \<exists>w. s = w @ rest \<and> matches ci r w caps"
  unfolding exec_at_def by (drule bt_sound_caps) auto

lemma find_first_sound_caps:
  "find_first ci r s = Some (pre, rest, caps) \<Longrightarrow> \<exists>w. s = pre @ w @ rest \<and> matches ci r w caps"
proof (induction s arbitrary: pre)
  case Nil
  then show ?case
    by (auto split: option.splits dest: exec_at_sound_caps)
next
  case (Cons c s)
  show ?case
  proof (cases "exec_at ci r (c # s)")
    case None
    with Cons.prems obtain pre' where "find_first ci r s = Some (pre', rest, caps)" "pre = c # pre'"
      by (auto split: option.splits)
    with Cons.IH show ?thesis by fastforce
  next
    case (Some m)
    with Cons.prems have "exec_at ci r (c # s) = Some (rest, caps)" "pre = []"
      by (auto split: option.splits)
    with exec_at_sound_caps show ?thesis by fastforce
  qed
qed

lemma matches_SeqE:
  assumes "matches ci (Seq a b) w cs"
  obtains u v c1 c2 where "w = u @ v" "cs = c1 @ c2" "matches ci a u c1" "matches ci b v c2"
  using assms by auto

lemma matches_tail_no_group:
  assumes "matches True (cat [Many (In ws), Chars ''='', Many (In ws), One (In quotes), Chars xlink_uri, One (In quotes)]) w cs"
  shows "cs = []"
proof -
  from assms have "matches True (Seq (Many (In ws)) (Seq (Chars ''='') (Seq (Many (In ws))
      (Seq (One (In quotes)) (Seq (Chars xlink_uri) (One (In quotes))))))) w cs"
    by simp
  then obtain u1 v1 a1 b1 where 1: "cs = a1 @ b1" "matches True (Many (In ws)) u1 a1"
    and t1: "matches True (Seq (Chars ''='') (Seq (Many (In ws))
      (Seq (One (In quotes)) (Seq (Chars xlink_uri) (One (In quotes)))))) v1 b1"
    by (rule matches_SeqE)
  from t1 obtain u2 v2 a2 b2 where 2: "b1 = a2 @ b2" "matches True (Chars ''='') u2 a2"
    and t2: "matches True (Seq (Many (In ws))
      (Seq (One (In quotes)) (Seq (Chars xlink_uri) (One (In quotes))))) v2 b2"
    by (rule matches_SeqE)
  from t2 obtain u3 v3 a3 b3 where 3: "b2 = a3 @ b3" "matches True (Many (In ws)) u3 a3"
    and t3: "matches True (Seq (One (In quotes)) (Seq (Chars xlink_uri) (One (In quotes)))) v3 b3"
    by (rule matches_SeqE)
  from t3 obtain u4 v4 a4 b4 where 4: "b3 = a4 @ b4" "matches True (One (In quotes)) u4 a4"
    and t4: "matches True (Seq (Chars xlink_uri) (One (In quotes))) v4 b4"
    by (rule matches_SeqE)
  from t4 obtain u5 v5 a5 b5 where 5: "b4 = a5 @ b5" "matches True (Chars xlink_uri) u5 a5"
    "matches True (One (In quotes)) v5 b5"
    by (rule matches_SeqE)
  from 1 2 3 4 5 show ?thesis
    by simp
qed

lemma matches_xlinkNsPattern:
  assumes "matches True xlinkNsPattern w cs"
  shows "\<exists>ds. cs = [ds] \<and> ds \<noteq> [] \<and> set ds \<subseteq> set digits"
proof -
  from assms have "matches True (Seq (Chars ''xmlns:ns'') (Seq (Group (Seq (One (In digits)) (Many (In digits))))
      (cat [Many (In ws), Chars ''='', Many (In ws), One (In quotes), Chars xlink_uri, One (In quotes)]))) w cs"
    by (simp add: xlinkNsPattern_def plus_def)
  then obtain u1 v1 a1 b1 where 1: "cs = a1 @ b1" "matches True (Chars ''xmlns:ns'') u1 a1"
    and t1: "matches True (Seq (Group (Seq (One (In digits)) (Many (In digits))))
      (cat [Many (In ws), Chars ''='', Many (In ws), One (In quotes), Chars xlink_uri, One (In quotes)])) v1 b1"
    by (rule matches_SeqE)
  from t1 obtain ds v2 a2 b2 where 2: "b1 = a2 @ b2"
    "matches True (Group (Seq (One (In digits)) (Many (In digits)))) ds a2"
    and t2: "matches True (cat [Many (In ws), Chars ''='', Many (In ws), One (In quotes), Chars xlink_uri, One (In quotes)]) v2 b2"
    by (rule matches_SeqE)
  from 2(2) have "a2 = [ds]" "ds \<noteq> []" "set ds \<subseteq> set digits"
    by auto
  with 1 2(1) matches_tail_no_group [OF t2] show ?thesis
    by simp
qed

declare xlink_prefixes.simps [simp del]
declare decimal.simps [simp del]

lemma xlink_prefixes_digits:
  "N \<in> set (xlink_prefixes t) \<Longrightarrow> N \<noteq> [] \<and> set N \<subseteq> set digits"
proof (induction t rule: xlink_prefixes.induct)
  case (1 s)
  show ?case
  proof (cases "find_first True xlinkNsPattern s")
    case None
    with "1.prems" xlink_prefixes.simps [of s] show ?thesis by simp
  next
    case (Some m)
    obtain pre rest caps where m: "m = (pre, rest, caps)"
      by (cases m)
    from find_first_sound_caps [of True xlinkNsPattern s pre rest caps] Some m
    obtain w where "matches True xlinkNsPattern w caps"
      by auto
    from matches_xlinkNsPattern [OF this] obtain ds where ds: "caps = [ds]" "ds \<noteq> []" "set ds \<subseteq> set digits"
      by blast
    from "1.prems" Some m xlink_prefixes.simps [of s]
    have "N = group1 caps \<or> N \<in> set (xlink_prefixes rest)"
      by simp
    then show ?thesis
    proof
      assume "N = group1 caps"
      with ds show ?thesis by (simp add: group1_def)
    next
      assume "N \<in> set (xlink_prefixes rest)"
      with "1.IH" Some m show ?thesis by simp
    qed
  qed
qed

lemma replace_all_fn_no_start:
  assumes "\<And>x s. x \<in> set u \<Longrightarrow> exec_at ci r (x # s) = None" and "exec_at ci r [] = None"
  shows "replace_all_fn ci r f u st = (u, st)"
  using assms(1) by (induction u) (simp_all add: assms(2))

lemma replace_all_no_start:
  assumes "\<And>x s. x \<in> set u \<Longrightarrow> exec_at ci r (x # s) = None" and "exec_at ci r [] = None"
  shows "replace_all ci r tpl u = u"
  using assms by (simp add: replace_all_def replace_all_fn_no_start)

text \<open>A text between two characters the pattern never takes, none of whose characters starts a match, passes.\<close>

lemma replace_all_token:
  assumes nv: "never ci r c" "never ci r d"
    and ns: "\<And>x s. x \<in> set u \<Longrightarrow> exec_at ci r (x # s) = None" and e: "exec_at ci r [] = None"
  shows "replace_all ci r tpl (a @ (c # u @ [d]) @ b) =
     replace_all ci r tpl a @ (c # u @ [d]) @ replace_all ci r tpl b"
proof -
  have "replace_all ci r tpl (a @ c # (u @ d # b)) =
      replace_all ci r tpl a @ c # replace_all ci r tpl (u @ d # b)"
    by (rule replace_all_barrier [OF nv(1)])
  also have "replace_all ci r tpl (u @ d # b) = replace_all ci r tpl u @ d # replace_all ci r tpl b"
    by (rule replace_all_barrier [OF nv(2)])
  also have "replace_all ci r tpl u = u"
    using ns e by (rule replace_all_no_start)
  finally show ?thesis by simp
qed

section \<open>The placeholders under the rewriting steps\<close>

lemma same_underscore [simp]: "same ci a (CHR ''_'') \<longleftrightarrow> a = CHR ''_''"
  by (cases ci) (auto simp: same_def canonicalize_def letters_def lowers_def uppers_def split: option.splits if_splits)

lemma digits_no_underscore: "set N \<subseteq> set digits \<Longrightarrow> CHR ''_'' \<notin> set N"
  by (auto simp: digits_def)

lemma list_ex_eq [simp]: "list_ex (\<lambda>a. a = c) p \<longleftrightarrow> c \<in> set p"
  by (induction p) auto

lemma never_nsToXlinkPattern:
  "set N \<subseteq> set digits \<Longrightarrow> never True (nsToXlinkPattern N) (CHR ''_'')"
  by (auto simp: nsToXlinkPattern_def plus_def accepts.simps ws_def letters_def lowers_def uppers_def digits_def)

lemma never_xmlnsPattern:
  "set N \<subseteq> set digits \<Longrightarrow> never True (xmlnsPattern N) (CHR ''_'')"
  by (auto simp: xmlnsPattern_def plus_def accepts.simps ws_def quotes_def xlink_uri_def digits_def)

lemma no_start_nsToXlinkPattern:
  "x \<notin> set ws \<Longrightarrow> exec_at True (nsToXlinkPattern N) (x # s) = None"
  by (simp add: nsToXlinkPattern_def plus_def exec_at_def)

lemma no_empty_nsToXlinkPattern: "exec_at True (nsToXlinkPattern N) [] = None"
  by (simp add: nsToXlinkPattern_def plus_def exec_at_def)

lemma no_start_xmlnsPattern:
  "\<not> same True (CHR ''x'') x \<Longrightarrow> exec_at True (xmlnsPattern N) (x # s) = None"
  by (simp add: xmlnsPattern_def exec_at_def)

lemma no_empty_xmlnsPattern: "exec_at True (xmlnsPattern N) [] = None"
  by (simp add: xmlnsPattern_def exec_at_def)

lemma decimal_digits: "set (decimal n) \<subseteq> set digits"
proof (induction n rule: decimal.induct)
  case (1 n)
  have d: "digits ! k \<in> set digits" if "k < 10" for k
    using that by (intro nth_mem) (simp add: digits_def)
  show ?case
  proof (cases "n < 10")
    case True
    with d [of n] show ?thesis
      by (subst decimal.simps) simp
  next
    case False
    with 1 d [of "n mod 10"] show ?thesis
      by (subst decimal.simps) simp
  qed
qed

definition token_body :: "string \<Rightarrow> nat \<Rightarrow> string" where
  "token_body word n = ''__'' @ word @ ''_PLACEHOLDER_'' @ decimal n @ ''__''"

lemma placeholder_body:
  "placeholder placeholderPrefix n = CHR ''_'' # token_body ''BASE64'' n @ ''_''"
  "placeholder idRefPlaceholderPrefix n = CHR ''_'' # token_body ''IDREF'' n @ ''_''"
  by (simp_all add: placeholder_def placeholderPrefix_def idRefPlaceholderPrefix_def token_body_def)

lemma canonicalize_x: "canonicalize (CHR ''x'') = CHR ''X''"
  by (simp add: canonicalize_def lowers_def uppers_def)

lemma canonicalize_upper_or_self: "canonicalize c = CHR ''X'' \<Longrightarrow> c = CHR ''x'' \<or> c = CHR ''X''"
  by (auto simp: canonicalize_def lowers_def uppers_def split: option.splits if_splits)

lemma token_body_chars:
  assumes "word = ''BASE64'' \<or> word = ''IDREF''" and "x \<in> set (token_body word n)"
  shows "x \<notin> set ws \<and> \<not> same True (CHR ''x'') x"
proof -
  from assms decimal_digits [of n]
  have "x \<in> set ''_BASE64IDREFPLACEHOLDER'' \<or> x \<in> set digits"
    by (auto simp: token_body_def)
  then have "x \<notin> set ws \<and> x \<noteq> CHR ''x'' \<and> x \<noteq> CHR ''X''"
    by (auto simp: ws_def digits_def)
  with canonicalize_upper_or_self [of x] show ?thesis
    by (auto simp: same_def canonicalize_x)
qed

lemma replace_attr_token:
  assumes "set N \<subseteq> set digits" and "word = ''BASE64'' \<or> word = ''IDREF''"
  shows "replace_all True (nsToXlinkPattern N) tpl (a @ (CHR ''_'' # token_body word n @ ''_'') @ b) =
     replace_all True (nsToXlinkPattern N) tpl a @ (CHR ''_'' # token_body word n @ ''_'') @
     replace_all True (nsToXlinkPattern N) tpl b"
  using never_nsToXlinkPattern [OF assms(1)] token_body_chars [OF assms(2)]
  by (intro replace_all_token) (auto simp: no_start_nsToXlinkPattern no_empty_nsToXlinkPattern)

lemma replace_decl_token:
  assumes "set N \<subseteq> set digits" and "word = ''BASE64'' \<or> word = ''IDREF''"
  shows "replace_all True (xmlnsPattern N) tpl (a @ (CHR ''_'' # token_body word n @ ''_'') @ b) =
     replace_all True (xmlnsPattern N) tpl a @ (CHR ''_'' # token_body word n @ ''_'') @
     replace_all True (xmlnsPattern N) tpl b"
  using never_xmlnsPattern [OF assms(1)] token_body_chars [OF assms(2)]
  by (intro replace_all_token) (auto simp: no_start_xmlnsPattern no_empty_xmlnsPattern)

lemma rewrite_attrs_token:
  assumes "\<And>N. N \<in> set ps \<Longrightarrow> set N \<subseteq> set digits" and "word = ''BASE64'' \<or> word = ''IDREF''"
  shows "rewrite_attrs ps (a @ (CHR ''_'' # token_body word n @ ''_'') @ b) =
     rewrite_attrs ps a @ (CHR ''_'' # token_body word n @ ''_'') @ rewrite_attrs ps b"
  using assms(1)
proof (induction ps arbitrary: a b)
  case Nil
  then show ?case by (simp add: rewrite_attrs_def)
next
  case (Cons N ps)
  from Cons.prems have N: "set N \<subseteq> set digits"
    by simp
  from Cons.IH Cons.prems have IH: "\<And>a b. rewrite_attrs ps (a @ (CHR ''_'' # token_body word n @ ''_'') @ b) =
     rewrite_attrs ps a @ (CHR ''_'' # token_body word n @ ''_'') @ rewrite_attrs ps b"
    by simp
  have step: "rewrite_attrs (N # ps) t =
      rewrite_attrs ps (replace_all True (nsToXlinkPattern N) (\<lambda>caps. '' xlink:'' @ dollar1 caps @ ''='') t)" for t
    by (simp add: rewrite_attrs_def)
  show ?case
    unfolding step replace_attr_token [OF N assms(2)] IH by (rule refl)
qed

lemma rewrite_decls_token:
  assumes "\<And>N. N \<in> set ps \<Longrightarrow> set N \<subseteq> set digits" and "word = ''BASE64'' \<or> word = ''IDREF''"
  shows "rewrite_decls ps (a @ (CHR ''_'' # token_body word n @ ''_'') @ b) =
     rewrite_decls ps a @ (CHR ''_'' # token_body word n @ ''_'') @ rewrite_decls ps b"
  using assms(1)
proof (induction ps arbitrary: a b)
  case Nil
  then show ?case by (simp add: rewrite_decls_def)
next
  case (Cons N ps)
  from Cons.prems have N: "set N \<subseteq> set digits"
    by simp
  from Cons.IH Cons.prems have IH: "\<And>a b. rewrite_decls ps (a @ (CHR ''_'' # token_body word n @ ''_'') @ b) =
     rewrite_decls ps a @ (CHR ''_'' # token_body word n @ ''_'') @ rewrite_decls ps b"
    by simp
  have step: "rewrite_decls (N # ps) t =
      rewrite_decls ps (replace_all True (xmlnsPattern N) (\<lambda>caps. ''xmlns:xlink'' @ dollar1 caps) t)" for t
    by (simp add: rewrite_decls_def)
  show ?case
    unfolding step replace_decl_token [OF N assms(2)] IH by (rule refl)
qed

section \<open>Inputs without a declaration of the XLink namespace under a numeric prefix\<close>

text \<open>
  A word without an underscore that holds a colon and stands in the protected text stood
  in the input: the placeholders begin and end with an underscore and hold no colon. So a
  declaration found after the protecting steps was in the input.
\<close>

lemma placeholder_ends:
  assumes "pfx = placeholderPrefix \<or> pfx = idRefPlaceholderPrefix"
  shows "\<exists>u. placeholder pfx n = CHR ''_'' # u @ ''_''" and "CHR '':'' \<notin> set (placeholder pfx n)"
proof -
  from assms show "\<exists>u. placeholder pfx n = CHR ''_'' # u @ ''_''"
    using placeholder_body by blast
  from assms decimal_digits [of n] show "CHR '':'' \<notin> set (placeholder pfx n)"
    by (auto simp: placeholder_def placeholderPrefix_def idRefPlaceholderPrefix_def digits_def)
qed

lemma token_then_text:
  assumes tok: "tok = CHR ''_'' # u @ ''_''" "CHR '':'' \<notin> set tok"
    and w: "CHR ''_'' \<notin> set w"
  shows "prefix w (tok @ t) \<Longrightarrow> w = []"
    and "CHR '':'' \<in> set w \<Longrightarrow> sublist w (tok @ t) \<Longrightarrow> sublist w t"
proof -
  show "prefix w (tok @ t) \<Longrightarrow> w = []"
    using tok(1) w by (cases w) auto
  assume c: "CHR '':'' \<in> set w" and s: "sublist w (tok @ t)"
  from s consider "sublist w tok" | "sublist w t"
    | w1 w2 where "w = w1 @ w2" "suffix w1 tok" "prefix w2 t"
    unfolding sublist_append by blast
  then show "sublist w t"
  proof cases
    case 1
    with c tok(2) set_mono_sublist [of w tok] show ?thesis by auto
  next
    case 2
    then show ?thesis .
  next
    case 3
    show ?thesis
    proof (cases "w1 = []")
      case True
      with 3 show ?thesis by auto
    next
      case False
      with 3(2) tok(1) have "last w1 = CHR ''_''"
        by (metis last_appendR last_snoc suffix_def append_Cons list.simps(3) last_ConsR snoc_eq_iff_butlast)
      with False 3(1) w show ?thesis
        by (metis last_in_set Un_iff set_append)
    qed
  qed
qed

lemma copy_then_text:
  assumes p: "\<And>w. CHR ''_'' \<notin> set w \<Longrightarrow> prefix w t \<Longrightarrow> prefix w s"
    and q: "\<And>w. CHR ''_'' \<notin> set w \<Longrightarrow> CHR '':'' \<in> set w \<Longrightarrow> sublist w t \<Longrightarrow> sublist w s"
    and w: "CHR ''_'' \<notin> set w"
  shows "prefix w (x # t) \<Longrightarrow> prefix w (x # s)"
    and "CHR '':'' \<in> set w \<Longrightarrow> sublist w (x # t) \<Longrightarrow> sublist w (x # s)"
proof -
  show pre: "prefix w (x # t) \<Longrightarrow> prefix w (x # s)"
    using p w by (cases w) auto
  assume c: "CHR '':'' \<in> set w" and s: "sublist w (x # t)"
  from s have "prefix w (x # t) \<or> sublist w t"
    by (simp add: sublist_Cons_right)
  then show "sublist w (x # s)"
  proof
    assume "prefix w (x # t)"
    with pre show ?thesis by auto
  next
    assume "sublist w t"
    with q w c have "sublist w s" by blast
    then show ?thesis by (simp add: sublist_Cons_right)
  qed
qed

lemma protect_pass_keeps_words:
  assumes pfx: "pfx = placeholderPrefix \<or> pfx = idRefPlaceholderPrefix"
  shows "replace_all_fn ci r (protect_cb pfx) s st = (t, st') \<Longrightarrow> CHR ''_'' \<notin> set w \<Longrightarrow>
     (prefix w t \<longrightarrow> prefix w s) \<and> (CHR '':'' \<in> set w \<longrightarrow> sublist w t \<longrightarrow> sublist w s)"
proof (induction s arbitrary: st t st' w rule: length_induct)
  case (1 s)
  note w = \<open>CHR ''_'' \<notin> set w\<close>
  from placeholder_ends [OF pfx, of "length st"] obtain u where
    tok: "placeholder pfx (length st) = CHR ''_'' # u @ ''_''" "CHR '':'' \<notin> set (placeholder pfx (length st))"
    by blast
  note tt = token_then_text [OF tok w]
  have cb: "protect_cb pfx mm cc st = (placeholder pfx (length st), st @ [mm])" for mm cc
    by (simp add: protect_cb_def)
  show ?case
  proof (cases s)
    case Nil
    show ?thesis
    proof (cases "exec_at ci r []")
      case None
      with Nil "1.prems"(1) have "t = []" by simp
      with Nil show ?thesis by auto
    next
      case (Some m)
      with Nil "1.prems"(1) have t: "t = placeholder pfx (length st) @ []"
        by (cases m) (simp add: cb)
      from tt(1) [of "[]"] tt(2) [of "[]"] show ?thesis
        unfolding t Nil by auto
    qed
  next
    case (Cons x s')
    have IH: "(prefix v t1 \<longrightarrow> prefix v s1) \<and> (CHR '':'' \<in> set v \<longrightarrow> sublist v t1 \<longrightarrow> sublist v s1)"
      if "length s1 < length s" "replace_all_fn ci r (protect_cb pfx) s1 st1 = (t1, st2)" "CHR ''_'' \<notin> set v"
      for s1 st1 t1 st2 v
      using "1.IH" that by blast
    show ?thesis
    proof (cases "exec_at ci r (x # s')")
      case None
      obtain t1 st2 where r1: "replace_all_fn ci r (protect_cb pfx) s' st = (t1, st2)"
        by (cases "replace_all_fn ci r (protect_cb pfx) s' st")
      with None Cons "1.prems"(1) have t: "t = x # t1" by simp
      from IH [of s' st t1 st2] r1 Cons
      have "\<And>v. CHR ''_'' \<notin> set v \<Longrightarrow> prefix v t1 \<Longrightarrow> prefix v s'"
        and "\<And>v. CHR ''_'' \<notin> set v \<Longrightarrow> CHR '':'' \<in> set v \<Longrightarrow> sublist v t1 \<Longrightarrow> sublist v s'"
        by auto
      from copy_then_text [OF this w] show ?thesis
        unfolding t Cons by blast
    next
      case (Some m)
      obtain rest caps where m: "m = (rest, caps)" by (cases m)
      from exec_at_sound [of ci r "x # s'" rest caps] Some m obtain w0 where w0: "x # s' = w0 @ rest"
        by auto
      let ?st1 = "st @ [take (length (x # s') - length rest) (x # s')]"
      show ?thesis
      proof (cases "length rest < length (x # s')")
        case True
        obtain t1 st2 where r1: "replace_all_fn ci r (protect_cb pfx) rest ?st1 = (t1, st2)"
          by (cases "replace_all_fn ci r (protect_cb pfx) rest ?st1")
        with True Some m Cons "1.prems"(1) have t: "t = placeholder pfx (length st) @ t1"
          by (simp add: cb)
        from IH [of rest ?st1 t1 st2 w] r1 True Cons w
        have "CHR '':'' \<in> set w \<longrightarrow> sublist w t1 \<longrightarrow> sublist w rest"
          by simp
        moreover have "sublist rest s"
          unfolding Cons w0 by simp
        ultimately show ?thesis
          unfolding t using tt(1) [of t1] tt(2) [of t1] by (auto intro: sublist_order.order_trans)
      next
        case False
        obtain t1 st2 where r1: "replace_all_fn ci r (protect_cb pfx) s' ?st1 = (t1, st2)"
          by (cases "replace_all_fn ci r (protect_cb pfx) s' ?st1")
        with False Some m Cons "1.prems"(1) have t: "t = placeholder pfx (length st) @ x # t1"
          by (simp add: cb)
        from IH [of s' ?st1 t1 st2] r1 Cons
        have "\<And>v. CHR ''_'' \<notin> set v \<Longrightarrow> prefix v t1 \<Longrightarrow> prefix v s'"
          and "\<And>v. CHR ''_'' \<notin> set v \<Longrightarrow> CHR '':'' \<in> set v \<Longrightarrow> sublist v t1 \<Longrightarrow> sublist v s'"
          by auto
        from copy_then_text [OF this w] show ?thesis
          unfolding t Cons using tt(1) [of "x # t1"] tt(2) [of "x # t1"] by auto
      qed
    qed
  qed
qed

lemma same_colon [simp]: "same ci (CHR '':'') c \<longleftrightarrow> c = CHR '':''"
  by (cases ci) (auto simp: same_def canonicalize_nonletter letters_def lowers_def uppers_def)

lemma ci_word_underscore:
  "list_all2 (same ci) p w \<Longrightarrow> CHR ''_'' \<in> set w \<Longrightarrow> CHR ''_'' \<in> set p"
  by (induction p w rule: list_all2_induct) auto

lemma decl_words_chars:
  assumes "w \<in> decl_words"
  shows "CHR ''_'' \<notin> set w" and "CHR '':'' \<in> set w"
proof -
  from assms obtain x ds w1 w2 q1 u q2 where w:
    "w = x @ ds @ w1 @ ''='' @ w2 @ [q1] @ u @ [q2]"
    "ci_equal ''xmlns:ns'' x" "ds \<noteq> []" "set ds \<subseteq> set digits"
    "set w1 \<subseteq> set ws" "set w2 \<subseteq> set ws"
    "q1 \<in> set quotes" "ci_equal xlink_uri u" "q2 \<in> set quotes"
    unfolding decl_words_def by blast
  from w(2) ci_word_underscore [of True "''xmlns:ns''" x] have 1: "CHR ''_'' \<notin> set x"
    by (auto simp: ci_equal_def)
  from w(8) ci_word_underscore [of True xlink_uri u] have 2: "CHR ''_'' \<notin> set u"
    by (auto simp: ci_equal_def xlink_uri_def)
  from w(4,5,6,7,9) have 3: "CHR ''_'' \<notin> set ds \<union> set w1 \<union> set w2 \<union> {q1, q2}"
    by (auto simp: digits_def ws_def quotes_def)
  from 1 2 3 show "CHR ''_'' \<notin> set w"
    unfolding w(1) by auto
  from w(2) have "CHR '':'' \<in> set x"
    by (auto simp: ci_equal_def list_all2_Cons1)
  then show "CHR '':'' \<in> set w"
    unfolding w(1) by simp
qed

lemma protect_keeps_words:
  assumes "protect s = (t, b, i)" and "CHR ''_'' \<notin> set w" and "CHR '':'' \<in> set w" and "sublist w t"
  shows "sublist w s"
proof -
  obtain r1 b1 where 1: "replace_all_fn False (base64_pattern (CHR 0x22)) (protect_cb placeholderPrefix) s [] = (r1, b1)"
    by (cases "replace_all_fn False (base64_pattern (CHR 0x22)) (protect_cb placeholderPrefix) s []")
  obtain r2 b2 where 2: "replace_all_fn False (base64_pattern (CHR 0x27)) (protect_cb placeholderPrefix) r1 b1 = (r2, b2)"
    by (cases "replace_all_fn False (base64_pattern (CHR 0x27)) (protect_cb placeholderPrefix) r1 b1")
  obtain r3 i1 where 3: "replace_all_fn True url_pattern (protect_cb idRefPlaceholderPrefix) r2 [] = (r3, i1)"
    by (cases "replace_all_fn True url_pattern (protect_cb idRefPlaceholderPrefix) r2 []")
  obtain r4 i2 where 4: "replace_all_fn True href_pattern (protect_cb idRefPlaceholderPrefix) r3 i1 = (r4, i2)"
    by (cases "replace_all_fn True href_pattern (protect_cb idRefPlaceholderPrefix) r3 i1")
  from assms(1) 1 2 3 4 have "t = r4"
    by (simp add: protect_def)
  with assms(4) protect_pass_keeps_words [OF _ 4 assms(2)] assms(3) have "sublist w r3" by simp
  with protect_pass_keeps_words [OF _ 3 assms(2)] assms(3) have "sublist w r2" by simp
  with protect_pass_keeps_words [OF _ 2 assms(2)] assms(3) have "sublist w r1" by simp
  with protect_pass_keeps_words [OF _ 1 assms(2)] assms(3) show "sublist w s" by simp
qed

lemma test_sublist: "test ci r s \<longleftrightarrow> (\<exists>w \<in> lang ci r. sublist w s)"
  by (auto simp: test_iff sublist_def)

lemma lang_xlinkNsPattern: "lang True xlinkNsPattern = lang True hasIssue_pattern"
  by (simp add: xlinkNsPattern_def hasIssue_pattern_def plus_def)

lemma xlink_prefixes_Nil: "xlink_prefixes t = [] \<longleftrightarrow> \<not> test True hasIssue_pattern t"
proof -
  have "test True hasIssue_pattern t \<longleftrightarrow> test True xlinkNsPattern t"
    by (simp add: test_sublist lang_xlinkNsPattern)
  then show ?thesis
    by (subst xlink_prefixes.simps) (auto simp: test_def split: option.splits)
qed

lemma clean_stays_clean:
  assumes "\<not> test True hasIssue_pattern s" and "protect s = (t, b, i)"
  shows "xlink_prefixes t = []"
proof (rule ccontr)
  assume "xlink_prefixes t \<noteq> []"
  then obtain w where w: "w \<in> decl_words" "sublist w t"
    by (auto simp: xlink_prefixes_Nil test_sublist lang_hasIssue_pattern)
  from protect_keeps_words [OF assms(2) decl_words_chars [OF w(1)] w(2)] w(1) assms(1)
  show False
    by (auto simp: test_sublist lang_hasIssue_pattern)
qed

lemma protect_empty: "protect [] = ([], [], [])"
  by code_simp

lemma clean_input_not_rewritten:
  assumes "\<not> hasIssue (JString s)"
  shows "normalize (JString s) = JString (case protect s of (t, b, i) \<Rightarrow> restore_all b i t)"
proof (cases "s = []")
  case True
  then show ?thesis
    by (simp add: protect_empty restore_all_def restore_def)
next
  case False
  obtain t b i where p: "protect s = (t, b, i)"
    by (cases "protect s")
  from False assms have "\<not> test True hasIssue_pattern s"
    by simp
  from clean_stays_clean [OF this p] False p show ?thesis
    by (simp add: normalize_string_def)
qed




section \<open>The declaration on the first svg tag\<close>

text \<open>
  Step 6 replaces the first match of \<^verbatim>\<open>/<svg([^>]*)>/i\<close>: the tag name in any letter case, then
  everything up to the next \<^verbatim>\<open>>\<close>. The replacement writes the name in lower case.
\<close>

lemma same_gt [simp]: "same ci (CHR ''>'') c \<longleftrightarrow> c = CHR ''>''"
  by (cases ci) (auto simp: same_def canonicalize_nonletter letters_def lowers_def uppers_def)

lemma same_lt [simp]: "same ci (CHR ''<'') c \<longleftrightarrow> c = CHR ''<''"
  by (cases ci) (auto simp: same_def canonicalize_nonletter letters_def lowers_def uppers_def)

lemma accepts_not_gt [simp]: "accepts ci (NotIn ''>'') c \<longleftrightarrow> c \<noteq> CHR ''>''"
  by (simp add: accepts.simps)

lemma many_greedy:
  "list_all (accepts ci cs) u \<Longrightarrow> \<not> accepts ci cs c \<Longrightarrow> k (c # v) = Some m \<Longrightarrow>
   many ci cs (u @ c # v) k = Some m"
  by (induction u) auto

lemma exec_at_svg_pattern:
  assumes "lit True ''<svg'' s = Some (attrs @ CHR ''>'' # post)" and "CHR ''>'' \<notin> set attrs"
  shows "exec_at True svg_pattern s = Some (post, [attrs])"
proof -
  let ?rest = "attrs @ CHR ''>'' # post"
  let ?k = "\<lambda>s'. case lit True ''>'' s' of None \<Rightarrow> None
      | Some s'' \<Rightarrow> Some (s'', [] @ [take (length ?rest - length s') ?rest])"
  have "many True (NotIn ''>'') ?rest ?k = Some (post, [attrs])"
    using assms(2) by (intro many_greedy) (auto simp: list_all_iff)
  with assms(1) show ?thesis
    by (simp add: svg_pattern_def exec_at_def)
qed

lemma exec_at_Chars:
  "exec_at ci (Chars p) s = (case lit ci p s of None \<Rightarrow> None | Some s' \<Rightarrow> Some (s', []))"
  by (simp add: exec_at_def)

lemma exec_at_svg_pattern_None:
  "lit True ''<svg'' s = None \<Longrightarrow> exec_at True svg_pattern s = None"
  by (simp add: svg_pattern_def exec_at_def)

lemma find_first_svg_pattern:
  assumes "find_first True (Chars ''<svg'') t = Some (pre, attrs @ CHR ''>'' # post, caps)"
    and "CHR ''>'' \<notin> set attrs"
  shows "find_first True svg_pattern t = Some (pre, post, [attrs])"
  using assms(1)
proof (induction t arbitrary: pre)
  case Nil
  then show ?case
    by (simp add: exec_at_Chars)
next
  case (Cons x t)
  show ?case
  proof (cases "lit True ''<svg'' (x # t)")
    case None
    with Cons.prems obtain pre' where
      "find_first True (Chars ''<svg'') t = Some (pre', attrs @ CHR ''>'' # post, caps)" "pre = x # pre'"
      by (auto simp: exec_at_Chars split: option.splits)
    with Cons.IH [of pre'] None show ?thesis
      by (simp add: exec_at_svg_pattern_None)
  next
    case (Some rest)
    with Cons.prems have "rest = attrs @ CHR ''>'' # post" "pre = []"
      by (auto simp: exec_at_Chars)
    with Some exec_at_svg_pattern [OF _ assms(2), of "x # t" post] show ?thesis
      by simp
  qed
qed

lemma prefix_barrier: "c \<notin> set X \<Longrightarrow> prefix X (u @ c # b) \<longleftrightarrow> prefix X u"
  by (auto simp: prefix_append prefix_Cons)

lemma occurrences_Nil: "X \<noteq> [] \<Longrightarrow> occurrences X [] = 0"
  by simp

lemma occurrences_barrier:
  "X \<noteq> [] \<Longrightarrow> c \<notin> set X \<Longrightarrow> occurrences X (a @ c # b) = occurrences X a + occurrences X b"
proof (induction a)
  case Nil
  then show ?case by (cases X) (auto simp: prefix_Cons)
next
  case (Cons x a)
  from prefix_barrier [OF Cons.prems(2), of "x # a" b] Cons show ?case by simp
qed

lemma contains_occurrences: "X \<noteq> [] \<Longrightarrow> contains X t \<longleftrightarrow> 0 < occurrences X t"
  by (induction t) auto

lemma occurrences_other_start:
  "X = y # Y \<Longrightarrow> x \<noteq> y \<Longrightarrow> occurrences X (x # s) = occurrences X s"
  by (simp add: prefix_Cons)

lemma occurrences_decl: \<open>occurrences ''xmlns:xlink'' ''xmlns:xlink="http://www.w3.org/1999/xlink"'' = 1\<close>
  by code_simp

lemma matches_svg_pattern:
  assumes "matches True svg_pattern w caps"
  shows "\<exists>t1 t2 t3 attrs. w = CHR ''<'' # t1 # t2 # t3 # attrs @ ''>'' \<and> caps = [attrs]
      \<and> t1 \<noteq> CHR ''x'' \<and> t2 \<noteq> CHR ''x'' \<and> t3 \<noteq> CHR ''x'' \<and> CHR ''>'' \<notin> set attrs"
proof -
  from assms have "matches True (Seq (Chars ''<svg'') (Seq (Group (Many (NotIn ''>''))) (Chars ''>''))) w caps"
    by (simp add: svg_pattern_def)
  then obtain tag v1 a1 b1 where 1: "w = tag @ v1" "caps = a1 @ b1" "matches True (Chars ''<svg'') tag a1"
    and t1: "matches True (Seq (Group (Many (NotIn ''>''))) (Chars ''>'')) v1 b1"
    by (rule matches_SeqE)
  from t1 obtain attrs v2 a2 b2 where 2: "v1 = attrs @ v2" "b1 = a2 @ b2"
    "matches True (Group (Many (NotIn ''>''))) attrs a2" "matches True (Chars ''>'') v2 b2"
    by (rule matches_SeqE)
  from 1(3) obtain t1 t2 t3 where tag: "tag = [CHR ''<'', t1, t2, t3]" "a1 = []"
    "same True (CHR ''s'') t1" "same True (CHR ''v'') t2" "same True (CHR ''g'') t3"
    by (auto simp: list_all2_Cons1)
  from tag(3,4,5) have nx: "t1 \<noteq> CHR ''x''" "t2 \<noteq> CHR ''x''" "t3 \<noteq> CHR ''x''"
    by (auto simp: same_def canonicalize_def lowers_def uppers_def)
  from 2(3) have a: "a2 = [attrs]" "CHR ''>'' \<notin> set attrs"
    by (auto simp: list_all_iff)
  from 2(4) have g: "v2 = ''>''" "b2 = []"
    by (auto simp: list_all2_Cons1)
  from 1 2 tag nx a g show ?thesis by simp
qed

lemma occurrences_after_injection:
  assumes "occurrences ''xmlns:xlink'' (pre @ CHR ''<'' # t1 # t2 # t3 # attrs @ ''>'' @ post) = 0"
    and nx: "t1 \<noteq> CHR ''x''" "t2 \<noteq> CHR ''x''" "t3 \<noteq> CHR ''x''"
  shows \<open>occurrences ''xmlns:xlink''
     (pre @ ''<svg'' @ attrs @ '' xmlns:xlink="http://www.w3.org/1999/xlink">'' @ post) = 1\<close>
proof -
  let ?X = "''xmlns:xlink''"
  have e1: "occurrences ?X (a @ CHR ''<'' # M) = occurrences ?X a + occurrences ?X M" for a M
    by (rule occurrences_barrier) simp_all
  have e2: "occurrences ?X (N @ CHR ''>'' # b) = occurrences ?X N + occurrences ?X b" for N b
    by (rule occurrences_barrier) simp_all
  have e3: "occurrences ?X (N @ CHR '' '' # b) = occurrences ?X N + occurrences ?X b" for N b
    by (rule occurrences_barrier) simp_all
  have "pre @ CHR ''<'' # t1 # t2 # t3 # attrs @ ''>'' @ post
      = pre @ CHR ''<'' # ((t1 # t2 # t3 # attrs) @ CHR ''>'' # post)"
    by simp
  then have "occurrences ?X (pre @ CHR ''<'' # t1 # t2 # t3 # attrs @ ''>'' @ post) =
      occurrences ?X pre + (occurrences ?X (t1 # t2 # t3 # attrs) + occurrences ?X post)"
    by (simp only: e1 e2)
  moreover have "occurrences ?X (t1 # t2 # t3 # attrs) = occurrences ?X attrs"
    using nx by (simp add: prefix_Cons)
  ultimately have z: "occurrences ?X pre = 0" "occurrences ?X attrs = 0" "occurrences ?X post = 0"
    using assms(1) by simp_all
  have \<open>pre @ ''<svg'' @ attrs @ '' xmlns:xlink="http://www.w3.org/1999/xlink">'' @ post =
      pre @ CHR ''<'' # (((''svg'' @ attrs) @ CHR '' '' # ''xmlns:xlink="http://www.w3.org/1999/xlink"'') @ CHR ''>'' # post)\<close>
    by simp
  then have \<open>occurrences ?X (pre @ ''<svg'' @ attrs @ '' xmlns:xlink="http://www.w3.org/1999/xlink">'' @ post) =
      occurrences ?X pre + ((occurrences ?X (''svg'' @ attrs)
        + occurrences ?X ''xmlns:xlink="http://www.w3.org/1999/xlink"'') + occurrences ?X post)\<close>
    by (simp only: e1 e2 e3)
  moreover have "occurrences ?X (''svg'' @ attrs) = occurrences ?X attrs"
    by (simp add: prefix_Cons)
  ultimately show ?thesis
    using z occurrences_decl by simp
qed

lemma ensure_xlink_decl_cases:
  \<open>ensure_xlink_decl t = t \<or>
   (\<not> contains ''xmlns:xlink'' t \<and>
    (\<exists>pre t1 t2 t3 attrs post. t = pre @ CHR ''<'' # t1 # t2 # t3 # attrs @ ''>'' @ post
       \<and> t1 \<noteq> CHR ''x'' \<and> t2 \<noteq> CHR ''x'' \<and> t3 \<noteq> CHR ''x''
       \<and> find_first True svg_pattern t = Some (pre, post, [attrs])
       \<and> ensure_xlink_decl t = pre @ ''<svg'' @ attrs @ '' xmlns:xlink="http://www.w3.org/1999/xlink">'' @ post))\<close>
proof (cases "contains ''xlink:href'' t \<and> \<not> contains ''xmlns:xlink'' t")
  case False
  then show ?thesis by (auto simp: ensure_xlink_decl_def)
next
  case True
  show ?thesis
  proof (cases "find_first True svg_pattern t")
    case None
    with True show ?thesis by (simp add: ensure_xlink_decl_def replace_first_def)
  next
    case (Some m)
    obtain pre post caps where m: "m = (pre, post, caps)" by (cases m)
    from find_first_sound_caps [of True svg_pattern t pre post caps] Some m
    obtain w where w: "t = pre @ w @ post" "matches True svg_pattern w caps"
      by auto
    from matches_svg_pattern [OF w(2)] obtain t1 t2 t3 attrs where
      a: "w = CHR ''<'' # t1 # t2 # t3 # attrs @ ''>''" "caps = [attrs]"
      "t1 \<noteq> CHR ''x''" "t2 \<noteq> CHR ''x''" "t3 \<noteq> CHR ''x''"
      by blast
    from True Some m a(2)
    have \<open>ensure_xlink_decl t = pre @ ''<svg'' @ attrs @ '' xmlns:xlink="http://www.w3.org/1999/xlink">'' @ post\<close>
      by (simp add: ensure_xlink_decl_def replace_first_def dollar1_def)
    with True w(1) a Some m show ?thesis
      by auto
  qed
qed

section \<open>What the rewriting steps leave behind\<close>

text \<open>
  A replacement of every match leaves no match behind if no word of the pattern can lie across
  a replacement text: a word of the result lies in a replacement, across its border, or in
  the text between two replacements, and there the search would have found it.
\<close>

lemma replace_all_Cons_None:
  "exec_at ci r (c # s) = None \<Longrightarrow> replace_all ci r tpl (c # s) = c # replace_all ci r tpl s"
  by (simp add: replace_all_def split: prod.splits)

lemma replace_all_Cons_Some:
  "exec_at ci r (c # s) = Some (rest, caps) \<Longrightarrow> length rest < Suc (length s) \<Longrightarrow>
   replace_all ci r tpl (c # s) = tpl caps @ replace_all ci r tpl rest"
  by (simp add: replace_all_def split: prod.splits)

lemma exec_at_progress:
  assumes ne: "\<And>w. w \<in> lang ci r \<Longrightarrow> w \<noteq> []" and e: "exec_at ci r s = Some (rest, caps)"
  shows "length rest < length s"
  using exec_at_sound [OF e] ne by auto

lemma replace_all_unfold:
  assumes ne: "\<And>w. w \<in> lang ci r \<Longrightarrow> w \<noteq> []"
  shows "replace_all ci r tpl s =
    (case find_first ci r s of
       None \<Rightarrow> s
     | Some (pre, rest, caps) \<Rightarrow> pre @ tpl caps @ replace_all ci r tpl rest)"
proof (induction s)
  case Nil
  have "exec_at ci r [] = None"
  proof (cases "exec_at ci r []")
    case (Some m)
    obtain rest caps where "m = (rest, caps)" by (cases m)
    with Some exec_at_progress [where s = "[]" and rest = rest and caps = caps and ci = ci and r = r, OF ne] show ?thesis by simp
  qed simp
  then show ?case by (simp add: replace_all_def)
next
  case (Cons c s)
  show ?case
  proof (cases "exec_at ci r (c # s)")
    case None
    with Cons show ?thesis by (simp add: replace_all_Cons_None split: option.splits)
  next
    case (Some m)
    obtain rest caps where m: "m = (rest, caps)" by (cases m)
    with Some exec_at_progress [where s = "c # s" and rest = rest and caps = caps and ci = ci and r = r, OF ne] have "length rest < Suc (length s)"
      by simp
    with Some m show ?thesis by (simp add: replace_all_Cons_Some)
  qed
qed

lemma find_first_leftmost:
  "find_first ci r s = Some (pre, rest, caps) \<Longrightarrow> s = p @ w @ q \<Longrightarrow> w \<in> lang ci r \<Longrightarrow>
   length pre \<le> length p"
proof (induction s arbitrary: pre p)
  case Nil
  then show ?case by (auto split: option.splits)
next
  case (Cons c s)
  show ?case
  proof (cases "exec_at ci r (c # s)")
    case (Some m)
    with Cons.prems(1) have "pre = []" by (auto split: prod.splits)
    then show ?thesis by simp
  next
    case None
    have "p \<noteq> []"
    proof
      assume "p = []"
      with Cons.prems(2) have "c # s = w @ q" by simp
      with exec_at_complete [OF Cons.prems(3), of q] None show False by simp
    qed
    with Cons.prems(2) obtain p' where p: "p = c # p'" "s = p' @ w @ q"
      by (cases p) auto
    from None Cons.prems(1) obtain pre' where
      pre: "pre = c # pre'" "find_first ci r s = Some (pre', rest, caps)"
      by (auto split: option.splits)
    from Cons.IH [OF pre(2) p(2) Cons.prems(3)] pre p show ?thesis by simp
  qed
qed

lemma append_eq_longer:
  "xs @ ys = zs @ ts \<Longrightarrow> length xs \<le> length zs \<Longrightarrow> \<exists>us. zs = xs @ us \<and> ys = us @ ts"
  by (auto simp: append_eq_append_conv2)

lemma word_position_cases:
  assumes "g @ R @ T = p @ w @ q"
  shows "(\<exists>p'. T = p' @ w @ q)
    \<or> (length p < length g + length R \<and> length g < length p + length w)
    \<or> (\<exists>g3. g = p @ w @ g3)"
proof -
  consider "length g + length R \<le> length p" | "length p + length w \<le> length g"
    | "length p < length g + length R \<and> length g < length p + length w"
    by linarith
  then show ?thesis
  proof cases
    case 1
    from assms have "(g @ R) @ T = p @ (w @ q)" by simp
    from append_eq_longer [OF this] 1 obtain us where "p = (g @ R) @ us" "T = us @ w @ q"
      by auto
    then show ?thesis by blast
  next
    case 2
    from assms have "(p @ w) @ q = g @ (R @ T)" by simp
    from append_eq_longer [OF this] 2 obtain us where "g = (p @ w) @ us"
      by auto
    then show ?thesis by auto
  next
    case 3
    then show ?thesis by blast
  qed
qed

lemma replace_all_leaves_no_match:
  assumes ne: "\<And>w. w \<in> lang ci r \<Longrightarrow> w \<noteq> []"
    and ov: "\<And>m caps u v p w q. matches ci r m caps \<Longrightarrow> w \<in> lang ci r \<Longrightarrow>
       u @ tpl caps @ v = p @ w @ q \<Longrightarrow> length p < length u + length (tpl caps) \<Longrightarrow>
       length u < length p + length w \<Longrightarrow> False"
  shows "\<not> test ci r (replace_all ci r tpl s)"
proof -
  have "replace_all ci r tpl s = p @ w @ q \<Longrightarrow> w \<in> lang ci r \<Longrightarrow> False" for p w q
  proof (induction "length s" arbitrary: s p q rule: less_induct)
    case less
    show ?case
    proof (cases "find_first ci r s")
      case None
      with replace_all_unfold [where ci = ci and r = r and tpl = tpl and s = s, OF ne] have "replace_all ci r tpl s = s" by simp
      with less.prems have "s = p @ w @ q" by simp
      with find_first_complete [OF less.prems(2), of p q] None show False by simp
    next
      case (Some x)
      obtain g rest caps where x: "x = (g, rest, caps)" by (cases x)
      from find_first_sound_caps [of ci r s g rest caps] Some x
      obtain m where m: "s = g @ m @ rest" "matches ci r m caps" by auto
      from ne [OF matches_lang [OF m(2)]] m(1) have len: "length rest < length s" by simp
      from replace_all_unfold [where ci = ci and r = r and tpl = tpl and s = s, OF ne] Some x
      have "replace_all ci r tpl s = g @ tpl caps @ replace_all ci r tpl rest" by simp
      with less.prems(1) have e: "g @ tpl caps @ replace_all ci r tpl rest = p @ w @ q" by simp
      from word_position_cases [OF e] show False
      proof (elim disjE exE conjE)
        fix p' assume "replace_all ci r tpl rest = p' @ w @ q"
        from less.hyps [OF len this less.prems(2)] show False .
      next
        assume "length p < length g + length (tpl caps)" "length g < length p + length w"
        from ov [OF m(2) less.prems(2) e this] show False .
      next
        fix g3 assume g: "g = p @ w @ g3"
        with m(1) have "s = p @ w @ (g3 @ m @ rest)" by simp
        from find_first_leftmost [OF _ this less.prems(2), of g rest caps] Some x
        have "length g \<le> length p" by simp
        with g ne [OF less.prems(2)] show False by simp
      qed
    qed
  qed
  then show ?thesis by (auto simp: test_iff)
qed

lemma replace_all_creates_no_word:
  assumes ne: "\<And>w. w \<in> lang ci r \<Longrightarrow> w \<noteq> []"
    and ov: "\<And>m caps u v p w q. matches ci r m caps \<Longrightarrow> w \<in> lang ci r' \<Longrightarrow>
       u @ tpl caps @ v = p @ w @ q \<Longrightarrow> length p < length u + length (tpl caps) \<Longrightarrow>
       length u < length p + length w \<Longrightarrow> False"
    and clean: "\<not> test ci r' s"
  shows "\<not> test ci r' (replace_all ci r tpl s)"
proof -
  have "\<not> test ci r' s \<Longrightarrow> replace_all ci r tpl s = p @ w @ q \<Longrightarrow> w \<in> lang ci r' \<Longrightarrow> False" for p w q
  proof (induction "length s" arbitrary: s p q rule: less_induct)
    case less
    show ?case
    proof (cases "find_first ci r s")
      case None
      with replace_all_unfold [where ci = ci and r = r and tpl = tpl and s = s, OF ne] have "replace_all ci r tpl s = s" by simp
      with less.prems show False by (auto simp: test_iff)
    next
      case (Some x)
      obtain g rest caps where x: "x = (g, rest, caps)" by (cases x)
      from find_first_sound_caps [of ci r s g rest caps] Some x
      obtain m where m: "s = g @ m @ rest" "matches ci r m caps" by auto
      from ne [OF matches_lang [OF m(2)]] m(1) have len: "length rest < length s" by simp
      have rest: "\<not> test ci r' rest"
      proof
        assume "test ci r' rest"
        then obtain a b c where "rest = a @ b @ c" "b \<in> lang ci r'" by (auto simp: test_iff)
        with m(1) have "s = (g @ m @ a) @ b @ c" "b \<in> lang ci r'" by simp_all
        with less.prems(1) show False unfolding test_iff by blast
      qed
      from replace_all_unfold [where ci = ci and r = r and tpl = tpl and s = s, OF ne] Some x
      have "replace_all ci r tpl s = g @ tpl caps @ replace_all ci r tpl rest" by simp
      with less.prems(2) have e: "g @ tpl caps @ replace_all ci r tpl rest = p @ w @ q" by simp
      from word_position_cases [OF e] show False
      proof (elim disjE exE conjE)
        fix p' assume "replace_all ci r tpl rest = p' @ w @ q"
        from less.hyps [OF len rest this less.prems(3)] show False .
      next
        assume "length p < length g + length (tpl caps)" "length g < length p + length w"
        from ov [OF m(2) less.prems(3) e this] show False .
      next
        fix g3 assume g: "g = p @ w @ g3"
        with m(1) have "s = p @ w @ (g3 @ m @ rest)" by simp
        with less.prems(1) less.prems(3) show False unfolding test_iff by blast
      qed
    qed
  qed
  note main = this
  show ?thesis
  proof
    assume "test ci r' (replace_all ci r tpl s)"
    then obtain p w q where "replace_all ci r tpl s = p @ w @ q" "w \<in> lang ci r'"
      unfolding test_iff by blast
    from main [OF clean this] show False .
  qed
qed

lemma overlap_cases:
  assumes e: "u @ R @ v = p @ w @ q" and a: "length p < length u + length R"
    and b: "length u < length p + length w"
  shows "(\<exists>R1 R2. R = R1 @ R2 \<and> R2 \<noteq> [] \<and> w @ q = R2 @ v)
    \<or> (\<exists>w1 w2. w = w1 @ w2 \<and> w1 \<noteq> [] \<and> w2 \<noteq> [] \<and> w2 @ q = R @ v)"
proof (cases "length u \<le> length p")
  case True
  from append_eq_longer [OF e True] obtain us where us: "p = u @ us" "R @ v = us @ w @ q"
    by auto
  from a us have l: "length us \<le> length R" by simp
  from us(2) have "us @ (w @ q) = R @ v" by simp
  from append_eq_longer [OF this l] obtain R2 where "R = us @ R2" "w @ q = R2 @ v"
    by auto
  moreover from this a us have "R2 \<noteq> []" by auto
  ultimately show ?thesis by blast
next
  case False
  then have l: "length p \<le> length u" by simp
  from e have "p @ (w @ q) = u @ (R @ v)" by simp
  from append_eq_longer [OF this l] obtain us where us: "u = p @ us" "w @ q = us @ R @ v"
    by auto
  from False us have ne: "us \<noteq> []" by auto
  from b us have l2: "length us \<le> length w" by simp
  from us(2) have "us @ (R @ v) = w @ q" by simp
  from append_eq_longer [OF this l2] obtain w2 where w2: "w = us @ w2" "R @ v = w2 @ q"
    by auto
  from b us w2 have "w2 \<noteq> []" by auto
  with ne w2 show ?thesis by auto
qed

lemma same_nonletter: "c \<notin> set letters \<Longrightarrow> same True a c \<longleftrightarrow> a = c"
  using canonicalize_nonletter [of c a] by (auto simp: same_def)

lemma accepts_nonletter: "c \<notin> set letters \<Longrightarrow> accepts True (In cs) c \<longleftrightarrow> c \<in> set cs"
  by (induction cs) (auto simp: accepts.simps same_nonletter)

lemma ws_not_letters: "c \<in> set ws \<Longrightarrow> c \<notin> set letters"
  by (auto simp: ws_def letters_def lowers_def uppers_def)

lemma colon_not_letter: "CHR '':'' \<notin> set letters"
  by (simp add: letters_def lowers_def uppers_def)

lemma ci_word_nonletter:
  "list_all2 (same True) p k \<Longrightarrow> c \<in> set k \<Longrightarrow> c \<notin> set letters \<Longrightarrow> c \<in> set p"
  by (induction rule: list_all2_induct) (auto simp: same_nonletter)

lemma ci_word_class:
  "list_all2 (same True) p k \<Longrightarrow> c \<in> set k \<Longrightarrow> \<exists>a\<in>set p. canonicalize a = canonicalize c"
  by (induction rule: list_all2_induct) (auto simp: same_def)

lemma ci_digits: "list_all2 (same True) N k \<Longrightarrow> set N \<subseteq> set digits \<Longrightarrow> k = N"
proof (induction rule: list_all2_induct)
  case (Cons x xs y ys)
  from Cons.prems have "x \<notin> set letters"
    by (auto simp: digits_def letters_def lowers_def uppers_def)
  from canonicalize_nonletter [OF this, of y] Cons show ?case
    by (auto simp: same_def)
qed simp

text \<open>
  In a word, every white space character is followed by another one or by a character of \<open>F\<close>,
  and the last character is no white space.
\<close>

fun ws_followed :: "char set \<Rightarrow> string \<Rightarrow> bool" where
  "ws_followed F [] = True"
| "ws_followed F [c] = (c \<notin> set ws)"
| "ws_followed F (c # d # r) = ((c \<in> set ws \<longrightarrow> d \<in> set ws \<or> d \<in> F) \<and> ws_followed F (d # r))"

lemma ws_followed_ws_prefix:
  "set sp \<subseteq> set ws \<Longrightarrow> ws_followed F (d # r) \<Longrightarrow> d \<in> set ws \<or> d \<in> F \<Longrightarrow>
   ws_followed F (sp @ d # r)"
proof (induction sp)
  case (Cons a sp)
  then show ?case by (cases sp) auto
qed simp

lemma ws_followed_other_prefix:
  "set a \<inter> set ws = {} \<Longrightarrow> ws_followed F b \<Longrightarrow> b \<noteq> [] \<Longrightarrow> ws_followed F (a @ b)"
proof (induction a)
  case (Cons x a)
  then show ?case by (cases "a @ b") auto
qed simp

lemma ws_followed_pair:
  "ws_followed F (a @ c # d # b) \<Longrightarrow> c \<in> set ws \<Longrightarrow> d \<in> set ws \<or> d \<in> F"
proof (induction a)
  case (Cons x a)
  then show ?case by (cases a) auto
qed simp

lemma ws_followed_last: "ws_followed F (a @ [c]) \<Longrightarrow> c \<notin> set ws"
proof (induction a)
  case (Cons x a)
  then show ?case by (cases a) auto
qed simp

lemma ws_followed_suffix: "ws_followed F (a @ b) \<Longrightarrow> ws_followed F b"
proof (induction a)
  case (Cons x a)
  then show ?case by (cases "a @ b") auto
qed simp

lemma attr_word:
  assumes w: "w \<in> lang True (nsToXlinkPattern N)" and N: "set N \<subseteq> set digits"
  shows "\<exists>sp k0 k1 nm sp2. w = sp @ k0 # k1 # N @ '':'' @ nm @ sp2 @ ''=''
    \<and> sp \<noteq> [] \<and> set sp \<subseteq> set ws
    \<and> canonicalize k0 = canonicalize (CHR ''n'') \<and> canonicalize k1 = canonicalize (CHR ''s'')
    \<and> nm \<noteq> [] \<and> set nm \<inter> set ws = {} \<and> CHR '':'' \<notin> set nm \<and> set sp2 \<subseteq> set ws"
proof -
  from w obtain s0 sp' k l0 nm' sp2 e where
    w': "w = (s0 # sp') @ k @ (l0 # nm') @ sp2 @ e" and sp: "s0 \<in> set ws" "set sp' \<subseteq> set ws"
    and k: "list_all2 (same True) (''ns'' @ N @ '':'') k"
    and nm: "accepts True (In letters) l0" "list_all (accepts True (In (letters @ digits @ ''-''))) nm'"
    and sp2: "set sp2 \<subseteq> set ws" and e: "list_all2 (same True) ''='' e"
    by (auto simp: nsToXlinkPattern_def plus_def)
  from k obtain k0 k1 kN where k': "k = k0 # k1 # kN @ '':''" "same True (CHR ''n'') k0"
    "same True (CHR ''s'') k1" "list_all2 (same True) N kN"
    by (auto simp: list_all2_Cons1 list_all2_append1)
  from ci_digits [OF k'(4) N] have kN: "kN = N" .
  from e have e': "e = ''=''"
    by (auto simp: list_all2_Cons1)
  have nows: "c \<notin> set ws" if "c \<in> set (l0 # nm')" for c
  proof
    assume c: "c \<in> set ws"
    from that nm have "accepts True (In letters) c \<or> accepts True (In (letters @ digits @ ''-'')) c"
      by (auto simp: list_all_iff)
    with accepts_nonletter [OF ws_not_letters [OF c]] have "c \<in> set (letters @ digits @ ''-'')"
      by auto
    with c ws_not_letters [OF c] show False
      by (auto simp: ws_def digits_def)
  qed
  have nocolon: "CHR '':'' \<notin> set (l0 # nm')"
  proof
    assume c: "CHR '':'' \<in> set (l0 # nm')"
    with nm have "accepts True (In letters) (CHR '':'') \<or> accepts True (In (letters @ digits @ ''-'')) (CHR '':'')"
      by (auto simp: list_all_iff)
    with accepts_nonletter [OF colon_not_letter] have "CHR '':'' \<in> set (letters @ digits @ ''-'')"
      by auto
    with colon_not_letter show False
      by (auto simp: digits_def)
  qed
  from nows have "set (l0 # nm') \<inter> set ws = {}" by auto
  with w' sp k' kN e' nocolon sp2 show ?thesis
    by (intro exI [of _ "s0 # sp'"] exI [of _ k0] exI [of _ k1] exI [of _ "l0 # nm'"] exI [of _ sp2])
      (simp add: same_def)
qed

lemma canonicalize_n: "canonicalize c = canonicalize (CHR ''n'') \<Longrightarrow> c = CHR ''n'' \<or> c = CHR ''N''"
  by (auto simp: canonicalize_def lowers_def uppers_def split: option.splits if_splits)

lemma canonicalize_s: "canonicalize c = canonicalize (CHR ''s'') \<Longrightarrow> c = CHR ''s'' \<or> c = CHR ''S''"
  by (auto simp: canonicalize_def lowers_def uppers_def split: option.splits if_splits)

lemma name_chars:
  assumes "accepts True (In letters) c \<or> accepts True (In (letters @ digits @ ''-'')) c"
  shows "c \<notin> set ws" and "c \<noteq> CHR '':''"
proof -
  show "c \<notin> set ws"
  proof
    assume c: "c \<in> set ws"
    with assms accepts_nonletter [OF ws_not_letters [OF c]] have "c \<in> set (letters @ digits @ ''-'')"
      by auto
    with c ws_not_letters [OF c] show False
      by (auto simp: ws_def digits_def)
  qed
  show "c \<noteq> CHR '':''"
  proof
    assume c: "c = CHR '':''"
    with assms accepts_nonletter [OF colon_not_letter] have "CHR '':'' \<in> set (letters @ digits @ ''-'')"
      by auto
    with colon_not_letter show False
      by (auto simp: digits_def)
  qed
qed

lemma attr_match_caps:
  assumes "matches True (nsToXlinkPattern M) m caps"
  shows "\<exists>nm. caps = [nm] \<and> set nm \<inter> set ws = {}"
proof -
  from assms obtain l0 nm' where "caps = [l0 # nm']" "accepts True (In letters) l0"
    "list_all (accepts True (In (letters @ digits @ ''-''))) nm'"
    by (auto simp: nsToXlinkPattern_def plus_def)
  with name_chars(1) show ?thesis
    by (auto simp: list_all_iff)
qed

lemma attr_word_followed:
  assumes w: "w \<in> lang True (nsToXlinkPattern N)" and N: "set N \<subseteq> set digits"
  shows "ws_followed {CHR ''n'', CHR ''N'', CHR ''=''} w" and "\<exists>c w'. w = c # w' \<and> c \<in> set ws"
proof -
  let ?F = "{CHR ''n'', CHR ''N'', CHR ''=''}"
  from attr_word [OF w N] obtain sp k0 k1 nm sp2 where
    w': "w = sp @ k0 # k1 # N @ '':'' @ nm @ sp2 @ ''=''"
    and sp: "sp \<noteq> []" "set sp \<subseteq> set ws"
    and k: "canonicalize k0 = canonicalize (CHR ''n'')" "canonicalize k1 = canonicalize (CHR ''s'')"
    and nm: "nm \<noteq> []" "set nm \<inter> set ws = {}" "CHR '':'' \<notin> set nm" and sp2: "set sp2 \<subseteq> set ws"
    by blast
  from sp w' show "\<exists>c w'. w = c # w' \<and> c \<in> set ws"
    by (cases sp) auto
  have 1: "ws_followed ?F ''=''"
    by (simp add: ws_def)
  from ws_followed_ws_prefix [OF sp2 1] have 2: "ws_followed ?F (sp2 @ ''='')"
    by simp
  from canonicalize_n [OF k(1)] canonicalize_s [OF k(2)] N nm(2)
  have "set (k0 # k1 # N @ '':'' @ nm) \<inter> set ws = {}"
    by (auto simp: ws_def digits_def)
  from ws_followed_other_prefix [OF this 2] have 3: "ws_followed ?F (k0 # k1 # N @ '':'' @ nm @ sp2 @ ''='')"
    by simp
  from canonicalize_n [OF k(1)] have "k0 \<in> set ws \<or> k0 \<in> ?F"
    by auto
  from ws_followed_ws_prefix [OF sp(2) 3 this] w' show "ws_followed ?F w"
    by simp
qed

lemma attr_overlap:
  assumes m: "matches True (nsToXlinkPattern M) m caps"
    and w: "w \<in> lang True (nsToXlinkPattern N)" and N: "set N \<subseteq> set digits"
    and e: "u @ ('' xlink:'' @ dollar1 caps @ ''='') @ v = p @ w @ q"
    and a: "length p < length u + length ('' xlink:'' @ dollar1 caps @ ''='')"
    and b: "length u < length p + length w"
  shows False
proof -
  let ?F = "{CHR ''n'', CHR ''N'', CHR ''=''}"
  from attr_match_caps [OF m] obtain nm where nm: "caps = [nm]" "set nm \<inter> set ws = {}"
    by blast
  define Rt where "Rt = ''link:'' @ nm @ ''=''"
  have R: "'' xlink:'' @ dollar1 caps @ ''='' = CHR '' '' # CHR ''x'' # Rt"
    by (simp add: nm dollar1_def Rt_def)
  from nm(2) have Rt: "set (CHR ''x'' # Rt) \<inter> set ws = {}"
    by (auto simp: Rt_def ws_def)
  have x: "\<not> (CHR ''x'' \<in> set ws \<or> CHR ''x'' \<in> ?F)"
    by (simp add: ws_def)
  from attr_word_followed [OF w N] obtain c w' where f: "ws_followed ?F w" and c: "w = c # w'" "c \<in> set ws"
    by blast
  from overlap_cases [OF e a b] show False
  proof (elim disjE exE conjE)
    fix R1 R2
    assume r: "'' xlink:'' @ dollar1 caps @ ''='' = R1 @ R2" "R2 \<noteq> []" "w @ q = R2 @ v"
    from r(2,3) c obtain R2' where R2: "R2 = c # R2'" "w' @ q = R2' @ v"
      by (cases R2) auto
    have "R1 = []"
    proof (cases R1)
      case (Cons y R1')
      with r(1) R R2 have "c \<in> set (CHR ''x'' # Rt)"
        by (cases R1') auto
      with Rt c(2) show ?thesis by blast
    qed simp
    with r(1) R R2 have "R2' = CHR ''x'' # Rt" by simp
    with R2(2) have w': "w' @ q = CHR ''x'' # Rt @ v" by simp
    show False
    proof (cases w')
      case Nil
      with f c show False by simp
    next
      case (Cons d w'')
      with w' have "d = CHR ''x''" by simp
      with f c Cons x show False by simp
    qed
  next
    fix w1 w2
    assume r: "w = w1 @ w2" "w1 \<noteq> []" "w2 \<noteq> []" "w2 @ q = ('' xlink:'' @ dollar1 caps @ ''='') @ v"
    from r(3,4) R obtain w3 where w3: "w2 = CHR '' '' # w3" "w3 @ q = CHR ''x'' # Rt @ v"
      by (cases w2) auto
    have sp: "CHR '' '' \<in> set ws" by (simp add: ws_def)
    show False
    proof (cases w3)
      case Nil
      with f r(1) w3 ws_followed_last [of ?F w1 "CHR '' ''"] sp show False by simp
    next
      case (Cons d w4)
      with w3 have "d = CHR ''x''" by simp
      with f r(1) w3 Cons ws_followed_pair [of ?F w1 "CHR '' ''" "CHR ''x''" w4] sp x show False
        by simp
    qed
  qed
qed

lemma attr_word_nonempty: "w \<in> lang True (nsToXlinkPattern N) \<Longrightarrow> w \<noteq> []"
  by (auto simp: nsToXlinkPattern_def plus_def)

lemma rewrite_attrs_snoc:
  "rewrite_attrs (ps @ [M]) t =
     replace_all True (nsToXlinkPattern M) (\<lambda>caps. '' xlink:'' @ dollar1 caps @ ''='') (rewrite_attrs ps t)"
  by (simp add: rewrite_attrs_def)

lemma rewrite_attrs_clears:
  assumes "\<And>M. M \<in> set ps \<Longrightarrow> set M \<subseteq> set digits" and "N \<in> set ps"
  shows "\<not> test True (nsToXlinkPattern N) (rewrite_attrs ps t)"
  using assms
proof (induction ps rule: rev_induct)
  case Nil
  then show ?case by simp
next
  case (snoc M ps)
  from snoc.prems have N: "set N \<subseteq> set digits" by blast
  show ?case
  proof (cases "N = M")
    case True
    show ?thesis
      unfolding rewrite_attrs_snoc True [symmetric]
    proof (rule replace_all_leaves_no_match)
      fix w assume "w \<in> lang True (nsToXlinkPattern N)"
      then show "w \<noteq> []" by (rule attr_word_nonempty)
    next
      fix m caps u v p w q
      assume "matches True (nsToXlinkPattern N) m caps" "w \<in> lang True (nsToXlinkPattern N)"
        "u @ ('' xlink:'' @ dollar1 caps @ ''='') @ v = p @ w @ q"
        "length p < length u + length ('' xlink:'' @ dollar1 caps @ ''='')"
        "length u < length p + length w"
      from attr_overlap [OF this(1,2) N this(3,4,5)] show False .
    qed
  next
    case False
    with snoc.prems have "N \<in> set ps" by simp
    with snoc have clean: "\<not> test True (nsToXlinkPattern N) (rewrite_attrs ps t)" by simp
    show ?thesis
      unfolding rewrite_attrs_snoc
    proof (rule replace_all_creates_no_word [OF _ _ clean])
      fix w assume "w \<in> lang True (nsToXlinkPattern M)"
      then show "w \<noteq> []" by (rule attr_word_nonempty)
    next
      fix m caps u v p w q
      assume "matches True (nsToXlinkPattern M) m caps" "w \<in> lang True (nsToXlinkPattern N)"
        "u @ ('' xlink:'' @ dollar1 caps @ ''='') @ v = p @ w @ q"
        "length p < length u + length ('' xlink:'' @ dollar1 caps @ ''='')"
        "length u < length p + length w"
      from attr_overlap [OF this(1,2) N this(3,4,5)] show False .
    qed
  qed
qed

text \<open>In a word, no \<^verbatim>\<open>x\<close> (in either case) is followed by an \<^verbatim>\<open>m\<close>, and none is the last character.\<close>

fun no_xm :: "string \<Rightarrow> bool" where
  "no_xm [] = True"
| "no_xm [c] = (canonicalize c \<noteq> CHR ''X'')"
| "no_xm (c # d # r) = ((canonicalize c = CHR ''X'' \<longrightarrow> canonicalize d \<noteq> CHR ''M'') \<and> no_xm (d # r))"

lemma no_xm_append: "no_xm a \<Longrightarrow> no_xm b \<Longrightarrow> no_xm (a @ b)"
proof (induction a)
  case (Cons x a)
  show ?case
  proof (cases a)
    case Nil
    with Cons.prems show ?thesis by (cases b) auto
  next
    case (Cons y a')
    with Cons.prems Cons.IH show ?thesis by auto
  qed
qed simp

lemma no_xm_free: "(\<And>c. c \<in> set a \<Longrightarrow> canonicalize c \<noteq> CHR ''X'') \<Longrightarrow> no_xm a"
proof (induction a)
  case (Cons x a)
  then show ?case by (cases a) auto
qed simp

lemma no_xm_suffix: "no_xm (a @ b) \<Longrightarrow> no_xm b"
proof (induction a)
  case (Cons x a)
  then show ?case by (cases "a @ b") auto
qed simp

lemma no_xm_pair: "no_xm (a @ c # d # b) \<Longrightarrow> canonicalize c = CHR ''X'' \<Longrightarrow> canonicalize d \<noteq> CHR ''M''"
proof (induction a)
  case (Cons x a)
  then show ?case by (cases a) auto
qed simp

lemma no_xm_last: "no_xm (a @ [c]) \<Longrightarrow> canonicalize c \<noteq> CHR ''X''"
proof (induction a)
  case (Cons x a)
  then show ?case by (cases a) auto
qed simp

lemma no_xm_ci: "list_all2 (same True) a b \<Longrightarrow> no_xm a \<Longrightarrow> no_xm b"
proof (induction rule: list_all2_induct)
  case (Cons x xs y ys)
  show ?case
  proof (cases xs)
    case Nil
    with Cons show ?thesis by (auto simp: same_def)
  next
    case (Cons x' xs')
    with Cons.hyps(2) obtain y' ys' where ys: "ys = y' # ys'" "same True x' y'"
      by (auto simp: list_all2_Cons1)
    from Cons.prems Cons have "no_xm xs" by simp
    with Cons.IH have "no_xm ys" by simp
    with Cons.prems Cons.hyps(1) Cons ys show ?thesis
      by (auto simp: same_def)
  qed
qed simp

lemma no_xm_xlink_uri: "no_xm xlink_uri"
  by code_simp

lemma canonicalize_m: "canonicalize (CHR ''m'') = CHR ''M''"
  by (simp add: canonicalize_def lowers_def uppers_def)

definition decl_tail :: re where
  "decl_tail = cat [Many (In ws), Chars ''='', Many (In ws), One (In quotes), Chars xlink_uri, One (In quotes)]"

lemma xmlnsPattern_decl_tail: "xmlnsPattern N = Seq (Chars (''xmlns:ns'' @ N)) (Group decl_tail)"
  by (simp add: xmlnsPattern_def decl_tail_def)

lemma decl_tail_word:
  assumes "cap \<in> lang True decl_tail"
  shows "\<exists>sp1 sp2 q1 u q2. cap = sp1 @ ''='' @ sp2 @ [q1] @ u @ [q2] \<and> set sp1 \<subseteq> set ws
    \<and> set sp2 \<subseteq> set ws \<and> q1 \<in> set quotes \<and> list_all2 (same True) xlink_uri u \<and> q2 \<in> set quotes"
proof -
  from assms obtain sp1 e sp2 q1 u q2 where
    "cap = sp1 @ e @ sp2 @ [q1] @ u @ [q2]" "set sp1 \<subseteq> set ws" "set sp2 \<subseteq> set ws"
    "list_all2 (same True) ''='' e" "q1 \<in> set quotes" "list_all2 (same True) xlink_uri u" "q2 \<in> set quotes"
    by (auto simp: decl_tail_def)
  moreover from this(4) have "e = ''=''"
    by (auto simp: list_all2_Cons1)
  ultimately show ?thesis by blast
qed

lemma decl_tail_no_xm:
  assumes "cap \<in> lang True decl_tail"
  shows "no_xm cap"
proof -
  from decl_tail_word [OF assms] obtain sp1 sp2 q1 u q2 where
    c: "cap = sp1 @ ''='' @ sp2 @ [q1] @ u @ [q2]" "set sp1 \<subseteq> set ws"
    "set sp2 \<subseteq> set ws" "q1 \<in> set quotes" "list_all2 (same True) xlink_uri u" "q2 \<in> set quotes"
    by blast
  have 1: "no_xm (sp1 @ ''='' @ sp2 @ [q1])"
  proof (rule no_xm_free)
    fix c assume "c \<in> set (sp1 @ ''='' @ sp2 @ [q1])"
    with c(2,3,4) have "c \<in> set ws \<or> c \<in> set quotes \<or> c = CHR ''=''" by auto
    then show "canonicalize c \<noteq> CHR ''X''"
      by (auto simp: ws_def quotes_def canonicalize_def lowers_def uppers_def)
  qed
  from no_xm_ci [OF c(5) no_xm_xlink_uri] have 2: "no_xm u" .
  from c(6) have 3: "no_xm [q2]"
    by (auto simp: quotes_def canonicalize_def lowers_def uppers_def)
  from no_xm_append [OF 1 no_xm_append [OF 2 3]] c(1) show ?thesis by simp
qed

lemma decl_match_caps:
  assumes "matches True (xmlnsPattern M) m caps"
  shows "\<exists>cap. caps = [cap] \<and> cap \<in> lang True decl_tail"
proof -
  from assms have "matches True (Seq (Chars (''xmlns:ns'' @ M)) (Group decl_tail)) m caps"
    by (simp only: xmlnsPattern_decl_tail)
  then obtain u v c1 c2 where 1: "caps = c1 @ c2" "matches True (Chars (''xmlns:ns'' @ M)) u c1"
    "matches True (Group decl_tail) v c2"
    by (rule matches_SeqE)
  from 1(3) obtain c where 2: "c2 = c @ [v]" "matches True decl_tail v c"
    by auto
  from matches_tail_no_group [OF 2(2) [unfolded decl_tail_def]] matches_lang [OF 2(2)] 1(1,2) 2(1) show ?thesis
    by simp
qed

lemma decl_word:
  assumes w: "w \<in> lang True (xmlnsPattern N)" and N: "set N \<subseteq> set digits"
  shows "\<exists>x0 x1 x2 x3 x4 x5 x6 r. w = x0 # x1 # x2 # x3 # x4 # x5 # x6 # r
    \<and> canonicalize x0 = CHR ''X'' \<and> canonicalize x1 = CHR ''M''
    \<and> canonicalize x6 = canonicalize (CHR ''n'') \<and> no_xm (x1 # x2 # x3 # x4 # x5 # x6 # r)"
proof -
  from w obtain k cap where w': "w = k @ cap" "list_all2 (same True) (''xmlns:ns'' @ N) k"
    "cap \<in> lang True decl_tail"
    by (auto simp: xmlnsPattern_decl_tail)
  from w'(2) obtain x0 x1 x2 x3 x4 x5 x6 x7 kN where
    k: "k = x0 # x1 # x2 # x3 # x4 # x5 # x6 # x7 # kN" "same True (CHR ''x'') x0" "same True (CHR ''m'') x1"
    "same True (CHR ''n'') x6" "list_all2 (same True) (''mlns:ns'' @ N) (x1 # x2 # x3 # x4 # x5 # x6 # x7 # kN)"
    by (auto simp: list_all2_Cons1)
  have "no_xm (x1 # x2 # x3 # x4 # x5 # x6 # x7 # kN)"
  proof (rule no_xm_free)
    fix c assume c: "c \<in> set (x1 # x2 # x3 # x4 # x5 # x6 # x7 # kN)"
    show "canonicalize c \<noteq> CHR ''X''"
    proof
      assume x: "canonicalize c = CHR ''X''"
      from ci_word_class [OF k(5) c] obtain a where a: "a \<in> set (''mlns:ns'' @ N)"
        "canonicalize a = canonicalize c"
        by blast
      from a(2) x canonicalize_upper_or_self [of a] have "a = CHR ''x'' \<or> a = CHR ''X''" by simp
      with a(1) N show False by (auto simp: digits_def)
    qed
  qed
  from no_xm_append [OF this decl_tail_no_xm [OF w'(3)]]
  have "no_xm (x1 # x2 # x3 # x4 # x5 # x6 # x7 # kN @ cap)" by simp
  with w'(1) k(1,2,3,4) show ?thesis
    by (simp add: same_def canonicalize_x canonicalize_m)
qed

lemma decl_word_nonempty: "w \<in> lang True (xmlnsPattern N) \<Longrightarrow> w \<noteq> []"
  by (auto simp: xmlnsPattern_decl_tail)

lemma decl_overlap:
  assumes m: "matches True (xmlnsPattern M) m caps"
    and w: "w \<in> lang True (xmlnsPattern N)" and N: "set N \<subseteq> set digits"
    and e: "u @ (''xmlns:xlink'' @ dollar1 caps) @ v = p @ w @ q"
    and a: "length p < length u + length (''xmlns:xlink'' @ dollar1 caps)"
    and b: "length u < length p + length w"
  shows False
proof -
  from decl_match_caps [OF m] obtain cap where cap: "caps = [cap]" "cap \<in> lang True decl_tail"
    by blast
  define Rt where "Rt = ''mlns:xlink'' @ cap"
  define Rt' where "Rt' = ''link'' @ cap"
  have R: "''xmlns:xlink'' @ dollar1 caps = CHR ''x'' # Rt"
    by (simp add: cap dollar1_def Rt_def)
  have Rt: "Rt = CHR ''m'' # ''lns:'' @ CHR ''x'' # Rt'"
    by (simp add: Rt_def Rt'_def)
  have "no_xm ''mlns:xlink''"
    by code_simp
  from no_xm_append [OF this decl_tail_no_xm [OF cap(2)]] have tlR: "no_xm Rt"
    by (simp only: Rt_def)
  from decl_word [OF w N] obtain x0 x1 x2 x3 x4 x5 x6 r where
    w': "w = x0 # x1 # x2 # x3 # x4 # x5 # x6 # r" and x0: "canonicalize x0 = CHR ''X''"
    and x1: "canonicalize x1 = CHR ''M''" and x6: "canonicalize x6 = canonicalize (CHR ''n'')"
    and tlw: "no_xm (x1 # x2 # x3 # x4 # x5 # x6 # r)"
    by blast
  define tw where "tw = x1 # x2 # x3 # x4 # x5 # x6 # r"
  have w0: "w = x0 # tw" and tw1: "\<exists>tw'. tw = x1 # tw'" and tlw': "no_xm tw"
    using w' tlw by (simp_all add: tw_def)
  from overlap_cases [OF e a b] show False
  proof (elim disjE exE conjE)
    fix R1 R2
    assume r: "''xmlns:xlink'' @ dollar1 caps = R1 @ R2" "R2 \<noteq> []" "w @ q = R2 @ v"
    show False
    proof (cases R1)
      case Nil
      with r(1,3) R have "w @ q = CHR ''x'' # Rt @ v" by simp
      then have "x6 = CHR ''x''" unfolding w' Rt by simp
      with x6 show False by (simp add: canonicalize_def lowers_def uppers_def)
    next
      case (Cons y R1')
      from r(1) [unfolded R] Cons have "Rt = R1' @ R2" by simp
      with tlR no_xm_suffix [of R1' R2] have R2: "no_xm R2" by simp
      from r(2,3) w0 obtain R2' where R2': "R2 = x0 # R2'" "tw @ q = R2' @ v"
        by (cases R2) auto
      from tw1 obtain tw' where tw': "tw = x1 # tw'" by blast
      show False
      proof (cases R2')
        case Nil
        with R2 R2' x0 show False by simp
      next
        case (Cons d R2'')
        with R2'(2) tw' have "d = x1" by simp
        with R2 R2' Cons x0 x1 show False by simp
      qed
    qed
  next
    fix w1 w2
    assume r: "w = w1 @ w2" "w1 \<noteq> []" "w2 \<noteq> []" "w2 @ q = (''xmlns:xlink'' @ dollar1 caps) @ v"
    from r(3,4) R obtain w3 where w3: "w2 = CHR ''x'' # w3" "w3 @ q = Rt @ v"
      by (cases w2) auto
    from r(1,2) w0 obtain w1' where w1: "w1 = x0 # w1'" "tw = w1' @ w2"
      by (cases w1) auto
    show False
    proof (cases w3)
      case Nil
      with tlw' w1 w3 no_xm_last [of w1' "CHR ''x''"] show False
        by (simp add: canonicalize_x)
    next
      case (Cons d w4)
      with w3 Rt have "d = CHR ''m''" by simp
      with tlw' w1 w3 Cons no_xm_pair [of w1' "CHR ''x''" "CHR ''m''" w4] show False
        by (simp add: canonicalize_x canonicalize_m)
    qed
  qed
qed

lemma rewrite_decls_snoc:
  "rewrite_decls (ps @ [M]) t =
     replace_all True (xmlnsPattern M) (\<lambda>caps. ''xmlns:xlink'' @ dollar1 caps) (rewrite_decls ps t)"
  by (simp add: rewrite_decls_def)

lemma rewrite_decls_clears:
  assumes "\<And>M. M \<in> set ps \<Longrightarrow> set M \<subseteq> set digits" and "N \<in> set ps"
  shows "\<not> test True (xmlnsPattern N) (rewrite_decls ps t)"
  using assms
proof (induction ps rule: rev_induct)
  case Nil
  then show ?case by simp
next
  case (snoc M ps)
  from snoc.prems have N: "set N \<subseteq> set digits" by blast
  show ?case
  proof (cases "N = M")
    case True
    show ?thesis
      unfolding rewrite_decls_snoc True [symmetric]
    proof (rule replace_all_leaves_no_match)
      fix w assume "w \<in> lang True (xmlnsPattern N)"
      then show "w \<noteq> []" by (rule decl_word_nonempty)
    next
      fix m caps u v p w q
      assume "matches True (xmlnsPattern N) m caps" "w \<in> lang True (xmlnsPattern N)"
        "u @ (''xmlns:xlink'' @ dollar1 caps) @ v = p @ w @ q"
        "length p < length u + length (''xmlns:xlink'' @ dollar1 caps)"
        "length u < length p + length w"
      from decl_overlap [OF this(1,2) N this(3,4,5)] show False .
    qed
  next
    case False
    with snoc.prems have "N \<in> set ps" by simp
    with snoc have clean: "\<not> test True (xmlnsPattern N) (rewrite_decls ps t)" by simp
    show ?thesis
      unfolding rewrite_decls_snoc
    proof (rule replace_all_creates_no_word [OF _ _ clean])
      fix w assume "w \<in> lang True (xmlnsPattern M)"
      then show "w \<noteq> []" by (rule decl_word_nonempty)
    next
      fix m caps u v p w q
      assume "matches True (xmlnsPattern M) m caps" "w \<in> lang True (xmlnsPattern N)"
        "u @ (''xmlns:xlink'' @ dollar1 caps) @ v = p @ w @ q"
        "length p < length u + length (''xmlns:xlink'' @ dollar1 caps)"
        "length u < length p + length w"
      from decl_overlap [OF this(1,2) N this(3,4,5)] show False .
    qed
  qed
qed

lemma ws_followed_free: "set a \<inter> set ws = {} \<Longrightarrow> ws_followed F a"
proof (induction a)
  case (Cons x a)
  then show ?case by (cases a) auto
qed simp

lemma ws_followed_first:
  "ws_followed F (c # s) \<Longrightarrow> c \<in> set ws \<Longrightarrow>
   \<exists>sp d r. c # s = sp @ d # r \<and> sp \<noteq> [] \<and> set sp \<subseteq> set ws \<and> d \<notin> set ws \<and> d \<in> F"
proof (induction s arbitrary: c)
  case Nil
  then show ?case by simp
next
  case (Cons d r)
  show ?case
  proof (cases "d \<in> set ws")
    case True
    from Cons.prems have "ws_followed F (d # r)" by simp
    from Cons.IH [OF this True] obtain sp e r' where
      "d # r = sp @ e # r'" "sp \<noteq> []" "set sp \<subseteq> set ws" "e \<notin> set ws" "e \<in> F"
      by blast
    with Cons.prems(2) have "c # d # r = (c # sp) @ e # r' \<and> c # sp \<noteq> [] \<and> set (c # sp) \<subseteq> set ws
        \<and> e \<notin> set ws \<and> e \<in> F"
      by simp
    then show ?thesis by blast
  next
    case False
    with Cons.prems have "c # d # r = [c] @ d # r \<and> [c] \<noteq> [] \<and> set [c] \<subseteq> set ws \<and> d \<notin> set ws \<and> d \<in> F"
      by simp
    then show ?thesis by blast
  qed
qed

lemma ws_run_unique:
  "sp @ d # r = sp' @ d' # r' \<Longrightarrow> set sp \<subseteq> set ws \<Longrightarrow> set sp' \<subseteq> set ws \<Longrightarrow>
   d \<notin> set ws \<Longrightarrow> d' \<notin> set ws \<Longrightarrow> d = d'"
proof (induction sp arbitrary: sp')
  case Nil
  then show ?case by (cases sp') auto
next
  case (Cons x sp)
  then show ?case by (cases sp') auto
qed

lemma split_after:
  "A @ c # B = w1 @ x # w3 \<Longrightarrow> x \<notin> set A \<Longrightarrow> x \<noteq> c \<Longrightarrow> \<exists>B1. B = B1 @ x # w3"
proof (induction A arbitrary: w1)
  case Nil
  then show ?case by (cases w1) auto
next
  case (Cons a A)
  then show ?case by (cases w1) auto
qed

lemma prefix_before:
  "w2 @ q = a @ c # X \<Longrightarrow> c \<notin> set w2 \<Longrightarrow> set w2 \<subseteq> set a"
proof (induction w2 arbitrary: a)
  case Nil
  then show ?case by simp
next
  case (Cons y w2)
  then show ?case by (cases a) auto
qed

lemma decl_replacement_followed:
  assumes "cap \<in> lang True decl_tail"
  shows "ws_followed ({CHR ''=''} \<union> set quotes) (''xmlns:xlink'' @ cap)"
proof -
  let ?G = "{CHR ''=''} \<union> set quotes"
  from decl_tail_word [OF assms] obtain sp1 sp2 q1 u q2 where
    c: "cap = sp1 @ ''='' @ sp2 @ [q1] @ u @ [q2]" "set sp1 \<subseteq> set ws"
    "set sp2 \<subseteq> set ws" "q1 \<in> set quotes" "list_all2 (same True) xlink_uri u" "q2 \<in> set quotes"
    by blast
  have u: "x \<notin> set ws" if "x \<in> set u" for x
  proof
    assume x: "x \<in> set ws"
    from ci_word_nonletter [OF c(5) that ws_not_letters [OF x]] x show False
      by (auto simp: xlink_uri_def ws_def)
  qed
  from c(4,6) have "q1 \<notin> set ws" "q2 \<notin> set ws"
    by (auto simp: quotes_def ws_def)
  with u have "set (q1 # u @ [q2]) \<inter> set ws = {}" by auto
  from ws_followed_free [OF this] have 1: "ws_followed ?G (q1 # u @ [q2])" .
  from c(4) have "q1 \<in> set ws \<or> q1 \<in> ?G" by simp
  from ws_followed_ws_prefix [OF c(3) 1 this] have 2: "ws_followed ?G (sp2 @ q1 # u @ [q2])" .
  have "set ''='' \<inter> set ws = {}" by (simp add: ws_def)
  from ws_followed_other_prefix [OF this 2] have 3: "ws_followed ?G (CHR ''='' # sp2 @ q1 # u @ [q2])"
    by simp
  have "CHR ''='' \<in> set ws \<or> CHR ''='' \<in> ?G" by simp
  from ws_followed_ws_prefix [OF c(2) 3 this] have 4: "ws_followed ?G (sp1 @ CHR ''='' # sp2 @ q1 # u @ [q2])" .
  have "set ''xmlns:xlink'' \<inter> set ws = {}" by (simp add: ws_def)
  from ws_followed_other_prefix [OF this 4] c(1) show ?thesis by simp
qed

lemma attr_decl_overlap:
  assumes m: "matches True (xmlnsPattern M) m caps"
    and w: "w \<in> lang True (nsToXlinkPattern N)" and N: "set N \<subseteq> set digits"
    and e: "u @ (''xmlns:xlink'' @ dollar1 caps) @ v = p @ w @ q"
    and a: "length p < length u + length (''xmlns:xlink'' @ dollar1 caps)"
    and b: "length u < length p + length w"
  shows False
proof -
  let ?G = "{CHR ''=''} \<union> set quotes"
  from decl_match_caps [OF m] obtain cap where cap: "caps = [cap]" "cap \<in> lang True decl_tail"
    by blast
  define Rd where "Rd = ''xmlns:xlink'' @ cap"
  define Rd' where "Rd' = ''xlink'' @ cap"
  have R: "''xmlns:xlink'' @ dollar1 caps = Rd"
    by (simp add: cap dollar1_def Rd_def)
  have Rd: "Rd = CHR ''x'' # ''mlns'' @ CHR '':'' # Rd'"
    by (simp add: Rd_def Rd'_def)
  from decl_replacement_followed [OF cap(2)] have wfR: "ws_followed ?G Rd"
    by (simp only: Rd_def)
  from attr_word [OF w N] obtain sp k0 k1 nm sp2 where
    w': "w = sp @ k0 # k1 # N @ '':'' @ nm @ sp2 @ ''=''"
    and sp: "sp \<noteq> []" "set sp \<subseteq> set ws"
    and k: "canonicalize k0 = canonicalize (CHR ''n'')" "canonicalize k1 = canonicalize (CHR ''s'')"
    and nm: "nm \<noteq> []" "set nm \<inter> set ws = {}" "CHR '':'' \<notin> set nm" and sp2: "set sp2 \<subseteq> set ws"
    by blast
  from canonicalize_n [OF k(1)] have k0: "k0 \<notin> set ws" "k0 \<notin> ?G" "k0 \<noteq> CHR ''x''"
    by (auto simp: ws_def quotes_def)
  from canonicalize_s [OF k(2)] have k1: "k1 \<noteq> CHR ''x''"
    by auto
  define A where "A = sp @ k0 # k1 # N"
  define B where "B = nm @ sp2 @ ''=''"
  define tl where "tl = k1 # N @ '':'' @ nm @ sp2 @ ''=''"
  have wA: "w = A @ CHR '':'' # B" and wt: "w = sp @ k0 # tl"
    by (simp_all add: w' A_def B_def tl_def)
  from sp(2) k0(3) k1 N have xA: "CHR ''x'' \<notin> set A"
    by (auto simp: A_def ws_def digits_def)
  from nm(3) sp2 have cB: "CHR '':'' \<notin> set B"
    by (auto simp: B_def ws_def)
  have lB: "B \<noteq> []" "last B = CHR ''=''"
    by (simp_all add: B_def)
  from overlap_cases [OF e a b] show False
  proof (elim disjE exE conjE)
    fix R1 R2
    assume r: "''xmlns:xlink'' @ dollar1 caps = R1 @ R2" "R2 \<noteq> []" "w @ q = R2 @ v"
    from r(1) R wfR ws_followed_suffix [of ?G R1 R2] have wf2: "ws_followed ?G R2" by simp
    from sp obtain c sp' where c: "sp = c # sp'" "c \<in> set ws"
      by (cases sp) auto
    with r(2,3) wt obtain R2' where R2: "R2 = c # R2'"
      by (cases R2) auto
    from ws_followed_first [OF wf2 [unfolded R2] c(2)] R2 obtain spR d rr where
      d: "R2 = spR @ d # rr" "set spR \<subseteq> set ws" "d \<notin> set ws" "d \<in> ?G"
      by auto
    from r(3) wt d(1) have "sp @ k0 # (tl @ q) = spR @ d # (rr @ v)" by simp
    from ws_run_unique [OF this sp(2) d(2) k0(1) d(3)] d(4) k0(2) show False by simp
  next
    fix w1 w2
    assume r: "w = w1 @ w2" "w1 \<noteq> []" "w2 \<noteq> []" "w2 @ q = (''xmlns:xlink'' @ dollar1 caps) @ v"
    from r(4) R have r4: "w2 @ q = Rd @ v" by simp
    with r(3) Rd obtain w3 where w3: "w2 = CHR ''x'' # w3"
      by (cases w2) auto
    from r(1) wA w3 have "A @ CHR '':'' # B = w1 @ CHR ''x'' # w3" by simp
    from split_after [OF this xA] obtain B1 where B1: "B = B1 @ w2"
      using w3 by auto
    with cB have c2: "CHR '':'' \<notin> set w2" by simp
    from B1 lB r(3) have "last w2 = CHR ''=''" by simp
    with r(3) have eq: "CHR ''='' \<in> set w2"
      using last_in_set [of w2] by auto
    from r4 Rd have "w2 @ q = ''xmlns'' @ CHR '':'' # (Rd' @ v)" by simp
    from prefix_before [OF this c2] eq show False by auto
  qed
qed

lemma rewrite_decls_keeps_attrs_clear:
  assumes "\<And>M. M \<in> set ps \<Longrightarrow> set M \<subseteq> set digits" and N: "set N \<subseteq> set digits"
    and "\<not> test True (nsToXlinkPattern N) s"
  shows "\<not> test True (nsToXlinkPattern N) (rewrite_decls ps s)"
  using assms(1,3)
proof (induction ps rule: rev_induct)
  case Nil
  then show ?case by (simp add: rewrite_decls_def)
next
  case (snoc M ps)
  then have clean: "\<not> test True (nsToXlinkPattern N) (rewrite_decls ps s)" by simp
  show ?case
    unfolding rewrite_decls_snoc
  proof (rule replace_all_creates_no_word [OF _ _ clean])
    fix w assume "w \<in> lang True (xmlnsPattern M)"
    then show "w \<noteq> []" by (rule decl_word_nonempty)
  next
    fix m caps u v p w q
    assume "matches True (xmlnsPattern M) m caps" "w \<in> lang True (nsToXlinkPattern N)"
      "u @ (''xmlns:xlink'' @ dollar1 caps) @ v = p @ w @ q"
      "length p < length u + length (''xmlns:xlink'' @ dollar1 caps)"
      "length u < length p + length w"
    from attr_decl_overlap [OF this(1,2) N this(3,4,5)] show False .
  qed
qed


































section \<open>The normalizer on concrete documents\<close>

definition c2_input :: string where
  \<open>c2_input = ''<image xmlns:ns1="http://www.w3.org/1999/xlink" ns1:href="data:image/png;base64,AAAA"/>''\<close>

lemma c2_output:
  \<open>normalize_string c2_input =
     ''<image xmlns:xlink="http://www.w3.org/1999/xlink" xlink:href="data:image/png;base64,AAAA"/>''\<close>
  by code_simp

text \<open>
  Claim C2. On \<^verbatim>\<open><image xmlns:ns1="http://www.w3.org/1999/xlink" ns1:href="data:image/png;base64,AAAA"/>\<close>
  the output of normalize contains \<^verbatim>\<open>xlink:href="data:image/png;base64,AAAA"\<close>, contains
  \<^verbatim>\<open>xmlns:xlink="http://www.w3.org/1999/xlink"\<close>, and contains no \<^verbatim>\<open>ns1:\<close>.
\<close>

theorem C2_prefix_rewrite:
  \<open>\<exists>out. normalize (JString c2_input) = JString out
      \<and> contains ''xlink:href="data:image/png;base64,AAAA"'' out
      \<and> contains ''xmlns:xlink="http://www.w3.org/1999/xlink"'' out
      \<and> \<not> contains ''ns1:'' out\<close>
proof -
  have ne: "c2_input \<noteq> []"
    by (simp add: c2_input_def)
  have a: \<open>contains ''xlink:href="data:image/png;base64,AAAA"'' (normalize_string c2_input)\<close>
    unfolding c2_output by code_simp
  have b: \<open>contains ''xmlns:xlink="http://www.w3.org/1999/xlink"'' (normalize_string c2_input)\<close>
    unfolding c2_output by code_simp
  have c: \<open>\<not> contains ''ns1:'' (normalize_string c2_input)\<close>
    unfolding c2_output by code_simp
  from ne a b c show ?thesis by simp
qed

definition c10_input :: string where
  \<open>c10_input = ''<svg xmlns="http://www.w3.org/2000/svg" xmlns:ns2="other" ns2:foo="x"/>''\<close>

lemma c10_v1: \<open>normalize_string c10_input = c10_input\<close>
  by code_simp

lemma c10_v2: \<open>normalize_string_v2 c10_input = ''<svg xmlns="http://www.w3.org/2000/svg" foo="x"/>''\<close>
  by code_simp

text \<open>
  Claim C10. The two normalize variants of the repository are not extensionally equal:
  on a document whose numeric prefix \<^verbatim>\<open>ns2\<close> is bound to another namespace, version 1.2.0
  returns the document as it is, and version 1.1.0 drops the declaration and strips the
  prefix of the attribute.
\<close>

theorem C10_variants_differ:
  \<open>\<exists>s. normalize (JString s) \<noteq> normalize_v2 (JString s)
      \<and> normalize (JString s) = JString s
      \<and> contains ''ns2:foo='' s
      \<and> normalize_v2 (JString s) = JString ''<svg xmlns="http://www.w3.org/2000/svg" foo="x"/>''\<close>
proof -
  have ne: "c10_input \<noteq> []"
    by (simp add: c10_input_def)
  have d: \<open>c10_input \<noteq> ''<svg xmlns="http://www.w3.org/2000/svg" foo="x"/>''\<close>
    by (simp add: c10_input_def)
  have c: \<open>contains ''ns2:foo='' c10_input\<close>
    by code_simp
  from ne d c c10_v1 c10_v2
  have \<open>normalize (JString c10_input) \<noteq> normalize_v2 (JString c10_input)
      \<and> normalize (JString c10_input) = JString c10_input
      \<and> contains ''ns2:foo='' c10_input
      \<and> normalize_v2 (JString c10_input) = JString ''<svg xmlns="http://www.w3.org/2000/svg" foo="x"/>''\<close>
    by simp
  then show ?thesis by blast
qed

lemma c1_output:
  \<open>normalize_string ''<a href="#url(#a)"/>'' = ''<a href="#___IDREF_PLACEHOLDER_0___"/>''\<close>
  by code_simp

text \<open>
  Claim C1, at a failing input. The document \<^verbatim>\<open><a href="#url(#a)"/>\<close> holds the fragment
  reference \<^verbatim>\<open>url(#a)\<close> inside the fragment reference \<^verbatim>\<open>href="#url(#a)"\<close>. The restoring
  loop runs by rising index, so the placeholder of the inner one, restored as part of the
  outer one, stays in the output: neither protected text survives.
\<close>

theorem C1_nested_reference_lost:
  \<open>\<exists>out. normalize (JString ''<a href="#url(#a)"/>'') = JString out
      \<and> out = ''<a href="#___IDREF_PLACEHOLDER_0___"/>''
      \<and> \<not> contains ''url(#a)'' out\<close>
proof -
  have \<open>\<not> contains ''url(#a)'' ''<a href="#___IDREF_PLACEHOLDER_0___"/>''\<close>
    by code_simp
  with c1_output show ?thesis by simp
qed

lemma c3_first:
  \<open>normalize_string ''<a href="#url(#a)url(#b)"/><a href="#c"/>'' =
     ''<a href="#___IDREF_PLACEHOLDER_0______IDREF_PLACEHOLDER_1___"/><a href="#c"/>''\<close>
  by code_simp

lemma c3_second:
  \<open>normalize_string ''<a href="#___IDREF_PLACEHOLDER_0______IDREF_PLACEHOLDER_1___"/><a href="#c"/>'' =
     ''<a href="#___IDREF_PLACEHOLDER_0___href="#c""/><a href="#c"/>''\<close>
  by code_simp

text \<open>
  Claim C3, at a failing input. On \<^verbatim>\<open><a href="#url(#a)url(#b)"/><a href="#c"/>\<close> the first
  run leaves two placeholders in the text (the nested references of claim C1); the second
  run takes the left-over \<^verbatim>\<open>___IDREF_PLACEHOLDER_1___\<close> for its own placeholder 1 and puts
  \<^verbatim>\<open>href="#c"\<close> there: normalize is not idempotent.
\<close>

theorem C3_not_idempotent:
  \<open>\<exists>s. normalize (normalize (JString s)) \<noteq> normalize (JString s)
      \<and> s = ''<a href="#url(#a)url(#b)"/><a href="#c"/>''
      \<and> normalize (JString s) =
          JString ''<a href="#___IDREF_PLACEHOLDER_0______IDREF_PLACEHOLDER_1___"/><a href="#c"/>''
      \<and> normalize (normalize (JString s)) =
          JString ''<a href="#___IDREF_PLACEHOLDER_0___href="#c""/><a href="#c"/>''\<close>
  using c3_first c3_second by simp




lemma c5_code: \<open>test True hasIssue_pattern ''<svg xmlns:ns1 = "http://www.w3.org/1999/xlink'>''\<close>
  by code_simp

lemma c5_spec: \<open>\<not> spec_hasIssue ''<svg xmlns:ns1 = "http://www.w3.org/1999/xlink'>''\<close>
  by code_simp

text \<open>
  The detector accepts white space around \<^verbatim>\<open>=\<close> and quotes that do not pair, which the
  shape of the specification does not have.
\<close>

theorem C5_counterexample:
  \<open>hasIssue (JString ''<svg xmlns:ns1 = "http://www.w3.org/1999/xlink'>'')
   \<and> \<not> spec_hasIssue ''<svg xmlns:ns1 = "http://www.w3.org/1999/xlink'>''\<close>
  using c5_code c5_spec by simp

lemma decl_words_nonempty: "w \<in> decl_words \<Longrightarrow> w \<noteq> []"
  by (auto simp: decl_words_def)

text \<open>
  Claim C5, as amended. \<open>hasIssue\<close> is true exactly for a string that contains, in any
  letter case, \<^verbatim>\<open>xmlns:ns\<close>, one or more digits, white space or none, \<^verbatim>\<open>=\<close>, white space
  or none, a quote character (single or double), \<^verbatim>\<open>http://www.w3.org/1999/xlink\<close> and a
  quote character (single or double, not necessarily the one before); it is false for the
  empty string and for every value that is no string.
\<close>

theorem C5_hasIssue_shape:
  "hasIssue v \<longleftrightarrow> (\<exists>s pre w post. v = JString s \<and> s = pre @ w @ post \<and> w \<in> decl_words)"
proof (cases v)
  case (JOther x)
  then show ?thesis by simp
next
  case (JString s)
  show ?thesis
  proof (cases "s = []")
    case True
    with JString show ?thesis
      by (auto dest: decl_words_nonempty)
  next
    case False
    with JString show ?thesis
      by (simp add: test_iff lang_hasIssue_pattern)
  qed
qed

theorem C5_hasIssue_shape_witness:
  \<open>hasIssue (JString ''<svg xmlns:ns1 = "http://www.w3.org/1999/xlink'>'')
   \<and> (\<exists>s pre w post. JString ''<svg xmlns:ns1 = "http://www.w3.org/1999/xlink'>'' = JString s
          \<and> s = pre @ w @ post \<and> w \<in> decl_words)\<close>
proof -
  have \<open>test True hasIssue_pattern ''<svg xmlns:ns1 = "http://www.w3.org/1999/xlink'>''\<close>
    by code_simp
  then have h: \<open>hasIssue (JString ''<svg xmlns:ns1 = "http://www.w3.org/1999/xlink'>'')\<close>
    by simp
  with C5_hasIssue_shape [of \<open>JString ''<svg xmlns:ns1 = "http://www.w3.org/1999/xlink'>''\<close>]
  show ?thesis by blast
qed

definition c6_input :: string where
  \<open>c6_input = ''<svg xmlns:xlink="http://www.w3.org/1999/xlink"><image xmlns:ns1="http://www.w3.org/1999/xlink" ns1:href="a.png"/></svg>''\<close>

definition c6_output :: string where
  \<open>c6_output = ''<svg xmlns:xlink="http://www.w3.org/1999/xlink"><image xmlns:xlink="http://www.w3.org/1999/xlink" xlink:href="a.png"/></svg>''\<close>

lemma c6_normalize: "normalize_string c6_input = c6_output"
  by code_simp

lemma c6_prefixes: "xlink_prefixes (fst (protect c6_input)) = [''1'']"
  by code_simp

lemma c6_twice: "occurrences ''xmlns:xlink'' c6_output = 2"
  by code_simp

theorem C6_counterexample:
  \<open>xlink_prefixes (fst (protect c6_input)) \<noteq> []
   \<and> normalize (JString c6_input) = JString c6_output
   \<and> occurrences ''xmlns:xlink'' c6_output = 2\<close>
proof -
  have "c6_input \<noteq> []"
    by (simp add: c6_input_def)
  with c6_normalize c6_prefixes c6_twice show ?thesis by simp
qed

lemma c6_protected_href:
  \<open>normalize_string ''<svg xmlns:ns1="http://www.w3.org/1999/xlink"><use ns1:href="#a"/></svg>'' =
     ''<svg xmlns:xlink="http://www.w3.org/1999/xlink"><use ns1:href="#a"/></svg>''\<close>
  by code_simp


lemma c7_output_v2:
  \<open>normalize_string_v2 ''<svg><image xlink:href="a.png"/></svg>'' =
     ''<svg xmlns:xlink="http://www.w3.org/1999/xlink" xmlns="http://www.w3.org/2000/svg"><image xlink:href="a.png"/></svg>''\<close>
  by code_simp




lemma c9_output:
  \<open>normalize_string ''___BASE64_PLACEHOLDER_0___"data:image/png;base64,AAAA"'' =
     ''"data:image/png;base64,AAAA""data:image/png;base64,AAAA"''\<close>
  by code_simp

theorem C9_counterexample:
  \<open>normalize (JString ''___BASE64_PLACEHOLDER_0___"data:image/png;base64,AAAA"'') =
     JString ''"data:image/png;base64,AAAA""data:image/png;base64,AAAA"''\<close>
  using c9_output by simp

text \<open>
  Claim C9, as amended. The placeholders are the fixed texts \<^verbatim>\<open>___BASE64_PLACEHOLDER_<n>___\<close>
  and \<^verbatim>\<open>___IDREF_PLACEHOLDER_<n>___\<close>. The rewriting of the attributes and of the
  declarations (steps 4 and 5), for the prefixes collected from any text, never changes one:
  a text around a placeholder is rewritten on both sides of it, and the placeholder stays.
  Nothing keeps the input from holding such a text itself.
\<close>

theorem C9_rewriter_keeps_placeholders:
  "rewrite_decls (xlink_prefixes t) (rewrite_attrs (xlink_prefixes t) (a @ placeholder placeholderPrefix n @ b)) =
     rewrite_decls (xlink_prefixes t) (rewrite_attrs (xlink_prefixes t) a) @ placeholder placeholderPrefix n @
     rewrite_decls (xlink_prefixes t) (rewrite_attrs (xlink_prefixes t) b)
   \<and> rewrite_decls (xlink_prefixes t) (rewrite_attrs (xlink_prefixes t) (a @ placeholder idRefPlaceholderPrefix n @ b)) =
     rewrite_decls (xlink_prefixes t) (rewrite_attrs (xlink_prefixes t) a) @ placeholder idRefPlaceholderPrefix n @
     rewrite_decls (xlink_prefixes t) (rewrite_attrs (xlink_prefixes t) b)"
proof -
  have d: "\<And>N. N \<in> set (xlink_prefixes t) \<Longrightarrow> set N \<subseteq> set digits"
    using xlink_prefixes_digits by blast
  show ?thesis
    unfolding placeholder_body
    by (simp only: rewrite_attrs_token [OF d] rewrite_decls_token [OF d] simp_thms)
qed



text \<open>
  Without a declaration that binds a numeric prefix to the XLink namespace no rewriting step
  runs: the output is the protected text with its placeholders restored.
\<close>

lemma no_binding_no_rewrite:
  assumes "\<not> hasIssue (JString s)"
  shows "normalize (JString s) = JString (case protect s of (t, b, i) \<Rightarrow> restore_all b i t)"
  using assms by (rule clean_input_not_rewritten)

text \<open>
  What step 6 does to a text on which its condition holds: the declaration is put before the
  \<^verbatim>\<open>>\<close> of the first \<^verbatim>\<open><svg\<close> tag, whose name is written in lower case.
\<close>

lemma step6_on_a_text_without_declaration:
  assumes href: "contains ''xlink:href'' t" and nodecl: "\<not> contains ''xmlns:xlink'' t"
    and tag: "find_first True (Chars ''<svg'') t = Some (pre, attrs @ ''>'' @ post, caps)"
    and attrs: "CHR ''>'' \<notin> set attrs"
  shows \<open>ensure_xlink_decl t = pre @ ''<svg'' @ attrs @ '' xmlns:xlink="http://www.w3.org/1999/xlink">'' @ post
    \<and> occurrences ''xmlns:xlink'' (ensure_xlink_decl t) = 1\<close>
proof -
  let ?X = "''xmlns:xlink''"
  from tag have tag': "find_first True (Chars ''<svg'') t = Some (pre, attrs @ CHR ''>'' # post, caps)"
    by simp
  from find_first_svg_pattern [OF tag' attrs] href nodecl
  have res: \<open>ensure_xlink_decl t = pre @ ''<svg'' @ attrs @ '' xmlns:xlink="http://www.w3.org/1999/xlink">'' @ post\<close>
    by (simp add: ensure_xlink_decl_def replace_first_def dollar1_def)
  from find_first_sound [OF tag'] obtain w where w: "t = pre @ w @ attrs @ CHR ''>'' # post"
    "list_all2 (same True) ''<svg'' w"
    by auto
  from w(2) obtain t1 t2 t3 where w': "w = [CHR ''<'', t1, t2, t3]"
    by (auto simp: list_all2_Cons1)
  from w(2) w' have nx: "t1 \<noteq> CHR ''x''" "t2 \<noteq> CHR ''x''" "t3 \<noteq> CHR ''x''"
    by (auto simp: same_def canonicalize_def lowers_def uppers_def)
  from nodecl have "occurrences ?X (pre @ CHR ''<'' # t1 # t2 # t3 # attrs @ ''>'' @ post) = 0"
    by (simp add: contains_occurrences w w')
  from occurrences_after_injection [OF this nx] res show ?thesis by simp
qed

text \<open>Step 6 never adds a second declaration: it acts only on a text without \<^verbatim>\<open>xmlns:xlink\<close>.\<close>

lemma injection_adds_at_most_one:
  "occurrences ''xmlns:xlink'' (ensure_xlink_decl t) \<le> max 1 (occurrences ''xmlns:xlink'' t)"
proof -
  from ensure_xlink_decl_cases [of t] show ?thesis
  proof
    assume "ensure_xlink_decl t = t"
    then show ?thesis by simp
  next
    assume \<open>\<not> contains ''xmlns:xlink'' t \<and>
      (\<exists>pre t1 t2 t3 attrs post. t = pre @ CHR ''<'' # t1 # t2 # t3 # attrs @ ''>'' @ post
       \<and> t1 \<noteq> CHR ''x'' \<and> t2 \<noteq> CHR ''x'' \<and> t3 \<noteq> CHR ''x''
       \<and> find_first True svg_pattern t = Some (pre, post, [attrs])
       \<and> ensure_xlink_decl t = pre @ ''<svg'' @ attrs @ '' xmlns:xlink="http://www.w3.org/1999/xlink">'' @ post)\<close>
    then obtain pre t1 t2 t3 attrs post where
      a: "\<not> contains ''xmlns:xlink'' t" "t = pre @ CHR ''<'' # t1 # t2 # t3 # attrs @ ''>'' @ post"
      "t1 \<noteq> CHR ''x''" "t2 \<noteq> CHR ''x''" "t3 \<noteq> CHR ''x''"
      \<open>ensure_xlink_decl t = pre @ ''<svg'' @ attrs @ '' xmlns:xlink="http://www.w3.org/1999/xlink">'' @ post\<close>
      by blast
    from a(1) a(2) have "occurrences ''xmlns:xlink'' (pre @ CHR ''<'' # t1 # t2 # t3 # attrs @ ''>'' @ post) = 0"
      by (simp add: contains_occurrences)
    from occurrences_after_injection [OF this a(3,4,5)] a(6) show ?thesis by simp
  qed
qed

text \<open>
  For a collected prefix number \<open>N\<close>, the text after steps 4 and 5 has no attribute
  \<^verbatim>\<open>nsN:name=\<close> after white space and no declaration \<^verbatim>\<open>xmlns:nsN="http://www.w3.org/1999/xlink"\<close>
  left.
\<close>

lemma collected_prefix_rewritten:
  assumes "N \<in> set (xlink_prefixes t)"
  shows "\<not> test True (nsToXlinkPattern N) (rewrite_decls (xlink_prefixes t) (rewrite_attrs (xlink_prefixes t) t))
    \<and> \<not> test True (xmlnsPattern N) (rewrite_decls (xlink_prefixes t) (rewrite_attrs (xlink_prefixes t) t))"
proof -
  have d: "set M \<subseteq> set digits" if "M \<in> set (xlink_prefixes t)" for M
    using xlink_prefixes_digits [OF that] by simp
  from rewrite_attrs_clears [OF d assms]
  have "\<not> test True (nsToXlinkPattern N) (rewrite_attrs (xlink_prefixes t) t)" .
  from rewrite_decls_keeps_attrs_clear [OF d d [OF assms] this] rewrite_decls_clears [OF d assms]
  show ?thesis by simp
qed


lemma c6_protected_prefixes:
  \<open>xlink_prefixes (fst (protect ''<svg xmlns:ns1="http://www.w3.org/1999/xlink"><use ns1:href="#a"/></svg>'')) = [''1'']\<close>
  by code_simp

text \<open>
  Claim C6, at a failing input. In \<^verbatim>\<open><svg xmlns:ns1="http://www.w3.org/1999/xlink"><use ns1:href="#a"/></svg>\<close>
  the prefix \<^verbatim>\<open>ns1\<close> is bound to the XLink namespace, so it is collected and the early return is
  not taken. Step 2 takes \<^verbatim>\<open>ns1:href="#a"\<close> as a fragment reference and puts a placeholder for the
  whole attribute, prefix included; steps 4 and 5 rename the declaration and never see the
  attribute; step 7 puts the attribute back as it was. The output has an attribute under the
  prefix \<^verbatim>\<open>ns1\<close> and no declaration of it.
\<close>

theorem C6_protected_href_keeps_prefix:
  \<open>\<exists>out. xlink_prefixes (fst (protect ''<svg xmlns:ns1="http://www.w3.org/1999/xlink"><use ns1:href="#a"/></svg>'')) = [''1'']
      \<and> normalize (JString ''<svg xmlns:ns1="http://www.w3.org/1999/xlink"><use ns1:href="#a"/></svg>'') = JString out
      \<and> out = ''<svg xmlns:xlink="http://www.w3.org/1999/xlink"><use ns1:href="#a"/></svg>''
      \<and> contains ''ns1:href='' out \<and> \<not> contains ''xmlns:ns1'' out\<close>
proof -
  have a: \<open>contains ''ns1:href='' ''<svg xmlns:xlink="http://www.w3.org/1999/xlink"><use ns1:href="#a"/></svg>''\<close>
    by code_simp
  have b: \<open>\<not> contains ''xmlns:ns1'' ''<svg xmlns:xlink="http://www.w3.org/1999/xlink"><use ns1:href="#a"/></svg>''\<close>
    by code_simp
  from a b c6_protected_href c6_protected_prefixes show ?thesis by simp
qed



end
